theory Spec2Isabelle
  imports Main "HOL-Library.Word"
begin

section \<open>Statements and effects of the program\<close>

text \<open>
  The program (\<^verbatim>\<open>main.cpp\<close>) prints two texts from one thread, from two unsynchronised
  threads, and from two threads coordinated by a monitor. A function of the source becomes
  the list of statements it executes, in program order; a thread body (a lambda handed to
  \<^verbatim>\<open>std::thread\<close>) is such a list as well. The scheduler is modelled further down.

  The two monitors of the source are the triples
  (\<^verbatim>\<open>raceTestsFinished\<close>, \<^verbatim>\<open>raceMutex\<close>, \<^verbatim>\<open>raceTestVar\<close>) and
  (\<^verbatim>\<open>finishedFirstText\<close>, \<^verbatim>\<open>printMutex\<close>, \<^verbatim>\<open>printCondition\<close>).
\<close>

datatype monitor = Race | Print

text \<open>\<^verbatim>\<open>std::chrono::milliseconds\<close>: a signed 64-bit count.\<close>

type_synonym milliseconds = "64 word"

datatype action =
    Cout string                \<comment> \<open>\<^verbatim>\<open>std::cout << s\<close>\<close>
  | Cerr string                \<comment> \<open>\<^verbatim>\<open>std::cerr << s\<close>\<close>
  | Putchar char               \<comment> \<open>\<^verbatim>\<open>std::putchar(c)\<close>\<close>
  | SleepFor milliseconds      \<comment> \<open>\<^verbatim>\<open>std::this_thread::sleep_for(d)\<close>\<close>
  | Store monitor bool         \<comment> \<open>assignment to the flag of a monitor\<close>
  | NotifyAll monitor          \<comment> \<open>\<^verbatim>\<open>notify_all()\<close> on the condition variable\<close>
  | Lock monitor               \<comment> \<open>\<^verbatim>\<open>std::unique_lock<std::mutex> lock(m)\<close>\<close>
  | Unlock monitor             \<comment> \<open>\<^verbatim>\<open>lock.unlock()\<close>\<close>
  | WhileNotFlag monitor       \<comment> \<open>\<^verbatim>\<open>while (!flag) { cv.wait(lock, pred); }\<close>\<close>
  | WaitPred monitor           \<comment> \<open>\<^verbatim>\<open>cv.wait(lock, pred)\<close>, that is \<^verbatim>\<open>while (!pred()) cv.wait(lock);\<close>\<close>
  | Wait monitor               \<comment> \<open>\<^verbatim>\<open>cv.wait(lock)\<close>\<close>
  | Detach "action list"       \<comment> \<open>\<^verbatim>\<open>std::thread(body).detach()\<close>\<close>

definition TEXT_DELAY :: milliseconds where
  "TEXT_DELAY = 3"

definition MAIN_WAIT :: milliseconds where
  "MAIN_WAIT = 1000"

subsection \<open>displayTextSlowly\<close>

text \<open>
  \<^verbatim>\<open>for (char c : text) { std::putchar(c); std::this_thread::sleep_for(delay); }\<close>
\<close>

fun displayTextSlowly :: "string \<Rightarrow> milliseconds \<Rightarrow> action list" where
  "displayTextSlowly [] delay = []"
| "displayTextSlowly (c # text) delay = Putchar c # SleepFor delay # displayTextSlowly text delay"

text \<open>What a list of statements writes to standard output, and the sleeps it asks for.\<close>

fun stdout_of :: "action list \<Rightarrow> string" where
  "stdout_of [] = []"
| "stdout_of (Cout str # p) = str @ stdout_of p"
| "stdout_of (Putchar c # p) = c # stdout_of p"
| "stdout_of (a # p) = stdout_of p"

fun sleeps_of :: "action list \<Rightarrow> milliseconds list" where
  "sleeps_of [] = []"
| "sleeps_of (SleepFor d # p) = d # sleeps_of p"
| "sleeps_of (a # p) = sleeps_of p"

subsection \<open>Standard output\<close>





subsection \<open>readFile\<close>

text \<open>
  The input stream of \<^verbatim>\<open>readFile\<close>: the characters not yet read, and the state bits the
  code tests. \<^verbatim>\<open>if (inputStream)\<close> and \<^verbatim>\<open>while (inputStream)\<close> are
  \<^verbatim>\<open>!fail()\<close>, which does not look at \<^verbatim>\<open>eofbit\<close>. A file system maps a file name to
  the content of the file, or to \<open>None\<close> when the file cannot be opened for reading.
\<close>

record ifstream =
  buffer :: string
  eofbit :: bool
  failbit :: bool

type_synonym filesystem = "string \<rightharpoonup> string"

definition ifstream_open :: "filesystem \<Rightarrow> string \<Rightarrow> ifstream" where
  "ifstream_open fs fileName =
     (case fs fileName of
        None \<Rightarrow> \<lparr>buffer = [], eofbit = False, failbit = True\<rparr>
      | Some content \<Rightarrow> \<lparr>buffer = content, eofbit = False, failbit = False\<rparr>)"

definition good :: "ifstream \<Rightarrow> bool" where
  "good inp = (\<not> eofbit inp \<and> \<not> failbit inp)"

text \<open>
  \<^verbatim>\<open>std::getline(inputStream, line)\<close>. The sentry fails on a stream that is not good: it
  sets \<^verbatim>\<open>failbit\<close> and the line is left as it was. Otherwise the line is erased and
  characters are extracted up to a newline, which is consumed and not stored, or up to
  the end of the file, which sets \<^verbatim>\<open>eofbit\<close>, and \<^verbatim>\<open>failbit\<close> too when nothing was
  extracted.
\<close>

definition getline :: "ifstream \<Rightarrow> string \<Rightarrow> ifstream \<times> string" where
  "getline inp line =
     (if \<not> good inp then (inp\<lparr>failbit := True\<rparr>, line)
      else
        let l = takeWhile (\<lambda>c. c \<noteq> CHR ''\<newline>'') (buffer inp);
            r = dropWhile (\<lambda>c. c \<noteq> CHR ''\<newline>'') (buffer inp)
        in case r of
             [] \<Rightarrow> (inp\<lparr>buffer := [], eofbit := True, failbit := (l = [])\<rparr>, l)
           | d # r' \<Rightarrow> (inp\<lparr>buffer := r'\<rparr>, l))"

text \<open>
  \<^verbatim>\<open>while (inputStream) { std::getline(inputStream, line); data += line + '\n'; }\<close>
\<close>

function readLoop :: "ifstream \<Rightarrow> string \<Rightarrow> string \<Rightarrow> string" where
  "readLoop inp line data =
     (if \<not> failbit inp
      then readLoop (fst (getline inp line)) (snd (getline inp line))
             (data @ snd (getline inp line) @ ''\<newline>'')
      else data)"
  by pat_completeness auto
termination
proof (relation "measure (\<lambda>(inp, line, data).
        if failbit inp then 0 else if eofbit inp then 1 else 2 + length (buffer inp))")
  show "wf (measure (\<lambda>(inp, line, data).
        if failbit inp then 0 else if eofbit inp then 1 else 2 + length (buffer inp)))"
    by simp
next
  fix inp :: ifstream and line data :: string
  assume nf: "\<not> failbit inp"
  have shorter: "length r < length (buffer inp)"
    if "dropWhile (\<lambda>c. c \<noteq> CHR ''\<newline>'') (buffer inp) = d # r" for d r
    using length_dropWhile_le [of "\<lambda>c. c \<noteq> CHR ''\<newline>''" "buffer inp"] that by simp
  show "((fst (getline inp line), snd (getline inp line),
          data @ snd (getline inp line) @ ''\<newline>''), inp, line, data)
        \<in> measure (\<lambda>(inp, line, data).
        if failbit inp then 0 else if eofbit inp then 1 else 2 + length (buffer inp))"
    using nf shorter
    by (auto simp: getline_def good_def Let_def split: list.splits)
qed

declare readLoop.simps [simp del]

text \<open>
  A call either returns a value or ends the process with an exit status (\<^verbatim>\<open>exit(1)\<close>).
  \<^verbatim>\<open>readFile\<close> gives the statements it executes on the standard streams and its outcome.
\<close>

datatype 'a outcome = Returned 'a | Exited nat

definition readFile :: "filesystem \<Rightarrow> string \<Rightarrow> action list \<times> string outcome" where
  "readFile fs fileName =
     (let inputStream = ifstream_open fs fileName
      in if \<not> failbit inputStream
         then ([], Returned (readLoop inputStream [] []))
         else ([Cerr ''Fatal Error: Could not open input file\<newline>''], Exited 1))"

section \<open>The demos\<close>

text \<open>
  The globals \<^verbatim>\<open>rock_text\<close> and \<^verbatim>\<open>hamlet_text\<close> are written once by \<^verbatim>\<open>main\<close>, before
  any thread exists; the demos take them as parameters.
\<close>

subsection \<open>raceTest\<close>

definition raceTest_first :: "string \<Rightarrow> action list" where
  "raceTest_first rock_text =
     Cout ''I Wanna Rock by Twisted Sister: \<newline>'' # displayTextSlowly rock_text TEXT_DELAY"

definition raceTest_second :: "string \<Rightarrow> action list" where
  "raceTest_second hamlet_text =
     Cout ''Hamlet Act III Scene I: \<newline>'' # displayTextSlowly hamlet_text TEXT_DELAY
       @ [Store Race True, NotifyAll Race]"

definition raceTest :: "string \<Rightarrow> string \<Rightarrow> action list" where
  "raceTest rock_text hamlet_text =
     [Cout ''Displaying texts with race conditions: \<newline>'',
      Detach (raceTest_first rock_text),
      Detach (raceTest_second hamlet_text),
      Lock Race,
      WhileNotFlag Race,
      SleepFor MAIN_WAIT,
      Cout ''\<newline>'',
      Unlock Race]"

subsection \<open>monitorTest\<close>

definition monitorTest_first :: "string \<Rightarrow> action list" where
  "monitorTest_first rock_text =
     Cout ''I Wanna Rock by Twisted Sister: \<newline>'' # displayTextSlowly rock_text TEXT_DELAY
       @ [Putchar CHR ''\<newline>'', Store Print True, NotifyAll Print]"

definition monitorTest_second :: "string \<Rightarrow> action list" where
  "monitorTest_second hamlet_text =
     [Lock Print, WhileNotFlag Print, Cout ''Hamlet Act III Scene I: \<newline>'']
       @ displayTextSlowly hamlet_text TEXT_DELAY @ [Unlock Print]"

text \<open>
  \<^verbatim>\<open>MAIN_WAIT + (rock_text.size() + hamlet_text.size()) * TEXT_DELAY\<close>: the sizes are
  \<^verbatim>\<open>size_t\<close>, the product and the sum are computed in unsigned 64-bit arithmetic, and the
  result is converted to the signed 64-bit count of \<^verbatim>\<open>std::chrono::milliseconds\<close>, which
  keeps the bits.
\<close>

definition monitorTest_wait :: "string \<Rightarrow> string \<Rightarrow> milliseconds" where
  "monitorTest_wait rock_text hamlet_text =
     MAIN_WAIT + (of_nat (length rock_text) + of_nat (length hamlet_text)) * TEXT_DELAY"

definition monitorTest :: "string \<Rightarrow> string \<Rightarrow> action list" where
  "monitorTest rock_text hamlet_text =
     [Cout ''Displaying texts in correct order with a monitor: \<newline>'',
      Detach (monitorTest_first rock_text),
      Detach (monitorTest_second hamlet_text),
      SleepFor (monitorTest_wait rock_text hamlet_text),
      Cout ''\<newline>'']"

text \<open>The statements that touch a monitor: its flag, its mutex or its condition variable.\<close>

fun uses_monitor :: "action \<Rightarrow> bool" where
  "uses_monitor (Store m b) = True"
| "uses_monitor (NotifyAll m) = True"
| "uses_monitor (Lock m) = True"
| "uses_monitor (Unlock m) = True"
| "uses_monitor (WhileNotFlag m) = True"
| "uses_monitor (WaitPred m) = True"
| "uses_monitor (Wait m) = True"
| "uses_monitor a = False"

section \<open>Threads and the scheduler\<close>

text \<open>
  Threads are numbered in the order of their creation, the thread that runs the demo
  being thread 0. A thread is the statements it has still to execute and its status: it is
  \<open>Blocked\<close> inside \<^verbatim>\<open>cv.wait(lock)\<close> with the mutex released, and \<open>Woken\<close> when it has
  been woken and has still to take the mutex again.

  The state of a run holds the flags and the owners of the mutexes of both monitors, and
  the trace: what every thread did, in the order in which it happened. An access to a flag
  is recorded with the value and with whether the accessing thread held the paired mutex.
  Statements are atomic and memory is sequentially consistent.
\<close>

datatype status = Running | Blocked monitor | Woken monitor

record thread =
  prog :: "action list"
  status :: status

datatype event =
    Stdout char
  | Stderr char
  | Slept milliseconds
  | FlagRead monitor bool bool
  | FlagWrite monitor bool bool
  | Notified monitor

type_synonym trace = "(nat \<times> event) list"

record state =
  threads :: "thread list"
  flag :: "monitor \<Rightarrow> bool"
  owner :: "monitor \<Rightarrow> nat option"
  trace :: trace

definition continue :: "nat \<Rightarrow> action list \<Rightarrow> state \<Rightarrow> state" where
  "continue t p s = s\<lparr>threads := (threads s)[t := (threads s ! t)\<lparr>prog := p\<rparr>]\<rparr>"

definition set_status :: "nat \<Rightarrow> status \<Rightarrow> state \<Rightarrow> state" where
  "set_status t st s = s\<lparr>threads := (threads s)[t := (threads s ! t)\<lparr>status := st\<rparr>]\<rparr>"

definition emit :: "nat \<Rightarrow> event list \<Rightarrow> state \<Rightarrow> state" where
  "emit t es s = s\<lparr>trace := trace s @ map (Pair t) es\<rparr>"

definition wake :: "monitor \<Rightarrow> thread \<Rightarrow> thread" where
  "wake m th = (if status th = Blocked m then th\<lparr>status := Woken m\<rparr> else th)"

definition acquire :: "nat \<Rightarrow> monitor \<Rightarrow> state \<Rightarrow> state" where
  "acquire t m s = s\<lparr>owner := (owner s)(m := Some t)\<rparr>"

definition release :: "monitor \<Rightarrow> state \<Rightarrow> state" where
  "release m s = s\<lparr>owner := (owner s)(m := None)\<rparr>"

text \<open>
  One statement of thread \<open>t\<close>, with \<open>p\<close> the statements after it. \<open>None\<close>: the thread
  cannot take the step in this state (the mutex is taken). The flag is a plain \<^verbatim>\<open>bool\<close>:
  \<open>Store\<close> writes it and the two loop heads read it, whoever holds the mutex.
  \<^verbatim>\<open>while (!flag) { cv.wait(lock, pred); }\<close> with the flag false goes on with the call of
  \<^verbatim>\<open>wait\<close> and then the loop head again; \<^verbatim>\<open>cv.wait(lock, pred)\<close> with the flag false
  goes on with \<^verbatim>\<open>cv.wait(lock)\<close> and then its own test again. \<^verbatim>\<open>cv.wait(lock)\<close>
  releases the mutex and blocks in one step.
\<close>

fun exec :: "nat \<Rightarrow> action \<Rightarrow> action list \<Rightarrow> state \<Rightarrow> state option" where
  "exec t (Cout str) p s = Some (emit t (map Stdout str) (continue t p s))"
| "exec t (Cerr str) p s = Some (emit t (map Stderr str) (continue t p s))"
| "exec t (Putchar c) p s = Some (emit t [Stdout c] (continue t p s))"
| "exec t (SleepFor d) p s = Some (emit t [Slept d] (continue t p s))"
| "exec t (Store m b) p s =
     Some (emit t [FlagWrite m b (owner s m = Some t)] (continue t p (s\<lparr>flag := (flag s)(m := b)\<rparr>)))"
| "exec t (NotifyAll m) p s =
     Some (emit t [Notified m] (continue t p (s\<lparr>threads := map (wake m) (threads s)\<rparr>)))"
| "exec t (Lock m) p s =
     (if owner s m = None then Some (continue t p (acquire t m s)) else None)"
| "exec t (Unlock m) p s =
     (if owner s m = Some t then Some (continue t p (release m s)) else None)"
| "exec t (WhileNotFlag m) p s =
     Some (emit t [FlagRead m (flag s m) (owner s m = Some t)]
            (continue t (if flag s m then p else WaitPred m # WhileNotFlag m # p) s))"
| "exec t (WaitPred m) p s =
     Some (emit t [FlagRead m (flag s m) (owner s m = Some t)]
            (continue t (if flag s m then p else Wait m # WaitPred m # p) s))"
| "exec t (Wait m) p s =
     (if owner s m = Some t
      then Some (set_status t (Blocked m) (continue t p (release m s)))
      else None)"
| "exec t (Detach body) p s =
     Some ((continue t p s)\<lparr>threads := threads (continue t p s) @ [\<lparr>prog = body, status = Running\<rparr>]\<rparr>)"

text \<open>
  The scheduler picks a thread. A running thread executes its next statement. A blocked
  thread wakes up: \<^verbatim>\<open>notify_all\<close> wakes every thread blocked on the condition variable,
  and a blocked thread may also wake up by itself at any time (a spurious wakeup). A woken
  thread takes the mutex again when it is free.
\<close>

definition step :: "nat \<Rightarrow> state \<Rightarrow> state option" where
  "step t s =
     (if t < length (threads s) then
        (case status (threads s ! t) of
           Running \<Rightarrow> (case prog (threads s ! t) of [] \<Rightarrow> None | a # p \<Rightarrow> exec t a p s)
         | Blocked m \<Rightarrow> Some (set_status t (Woken m) s)
         | Woken m \<Rightarrow>
             (if owner s m = None then Some (set_status t Running (acquire t m s)) else None))
      else None)"

text \<open>A run follows a schedule, the list of the threads picked; \<open>None\<close> when a thread
  picked cannot take a step.\<close>

fun run :: "nat list \<Rightarrow> state \<Rightarrow> state option" where
  "run [] s = Some s"
| "run (t # sched) s = (case step t s of None \<Rightarrow> None | Some s' \<Rightarrow> run sched s')"

text \<open>A demo starts as one thread, with both flags false (their initialisers) and both
  mutexes free.\<close>

definition start :: "action list \<Rightarrow> state" where
  "start p = \<lparr>threads = [\<lparr>prog = p, status = Running\<rparr>], flag = (\<lambda>m. False),
              owner = (\<lambda>m. None), trace = []\<rparr>"


text \<open>Projections of a trace: the characters a thread wrote to standard output, the
  values written to a flag, and whether an event is a write of thread \<open>t\<close> to standard
  output.\<close>

fun stdout_by :: "nat \<Rightarrow> trace \<Rightarrow> string" where
  "stdout_by t [] = []"
| "stdout_by t ((u, Stdout c) # tr) = (if u = t then c # stdout_by t tr else stdout_by t tr)"
| "stdout_by t (e # tr) = stdout_by t tr"

fun writes :: "monitor \<Rightarrow> trace \<Rightarrow> bool list" where
  "writes m [] = []"
| "writes m ((u, FlagWrite m' b h) # tr) = (if m' = m then b # writes m tr else writes m tr)"
| "writes m (e # tr) = writes m tr"

section \<open>Auxiliary definitions\<close>

text \<open>The last line of a text: what follows its last newline.\<close>

definition last_line :: "string \<Rightarrow> string" where
  "last_line s = rev (takeWhile (\<lambda>c. c \<noteq> CHR ''\<newline>'') (rev s))"


text \<open>
  Projections of a state, for statements about one thread or one flag.
\<close>

definition prog_of :: "nat \<Rightarrow> state \<Rightarrow> action list" where
  "prog_of t s = prog (threads s ! t)"

definition flag_of :: "monitor \<Rightarrow> state \<Rightarrow> bool" where
  "flag_of m s = flag s m"

text \<open>
  What a statement leaves of a thread's statements, and the events it adds to the trace,
  read off \<open>exec\<close>. The two loop heads push the call of \<^verbatim>\<open>wait\<close> back in front
  of themselves when the flag is false.
\<close>

fun next_prog :: "action \<Rightarrow> action list \<Rightarrow> state \<Rightarrow> action list" where
  "next_prog (WhileNotFlag m) p s = (if flag s m then p else WaitPred m # WhileNotFlag m # p)"
| "next_prog (WaitPred m) p s = (if flag s m then p else Wait m # WaitPred m # p)"
| "next_prog a p s = p"

fun events :: "nat \<Rightarrow> action \<Rightarrow> state \<Rightarrow> event list" where
  "events t (Cout str) s = map Stdout str"
| "events t (Cerr str) s = map Stderr str"
| "events t (Putchar c) s = [Stdout c]"
| "events t (SleepFor d) s = [Slept d]"
| "events t (Store m b) s = [FlagWrite m b (owner s m = Some t)]"
| "events t (NotifyAll m) s = [Notified m]"
| "events t (WhileNotFlag m) s = [FlagRead m (flag s m) (owner s m = Some t)]"
| "events t (WaitPred m) s = [FlagRead m (flag s m) (owner s m = Some t)]"
| "events t a s = []"

text \<open>
  The statements of a thread that is inside \<^verbatim>\<open>while (!flag) { cv.wait(lock, pred); }\<close>
  with the statements \<open>p\<close> after the loop: at the head of the loop, at the test of
  \<^verbatim>\<open>cv.wait(lock, pred)\<close>, or at \<^verbatim>\<open>cv.wait(lock)\<close> (a thread blocked or woken is at
  the test again).
\<close>

definition in_wait_loop :: "monitor \<Rightarrow> action list \<Rightarrow> action list \<Rightarrow> bool" where
  "in_wait_loop m p q =
     (q = WhileNotFlag m # p \<or> q = WaitPred m # WhileNotFlag m # p
      \<or> q = Wait m # WaitPred m # WhileNotFlag m # p)"

text \<open>
  The values the statements of a thread, and of the threads it creates, assign to the
  flag of \<open>m\<close>; the number of such assignments still to come in all threads; and the
  invariant that counts them: no assignment of \<open>False\<close> is pending or was made, the
  assignments made and pending are \<open>n\<close> in all, and the flag is true exactly when an
  assignment was made.
\<close>

fun stores :: "monitor \<Rightarrow> action list \<Rightarrow> bool list" where
  "stores m [] = []"
| "stores m (Store m' b # p) = (if m' = m then b # stores m p else stores m p)"
| "stores m (Detach body # p) = stores m body @ stores m p"
| "stores m (a # p) = stores m p"

definition pend :: "monitor \<Rightarrow> thread list \<Rightarrow> nat" where
  "pend m ths = sum_list (map (\<lambda>th. length (stores m (prog th))) ths)"

definition count_inv :: "monitor \<Rightarrow> nat \<Rightarrow> state \<Rightarrow> bool" where
  "count_inv m n s =
     ((\<forall>t < length (threads s). False \<notin> set (stores m (prog (threads s ! t))))
      \<and> False \<notin> set (writes m (trace s))
      \<and> length (writes m (trace s)) + pend m (threads s) = n
      \<and> (flag s m \<longleftrightarrow> writes m (trace s) \<noteq> []))"

text \<open>
  The lock discipline of a list of statements, for a thread that holds the mutex of \<open>m\<close>
  or not (\<open>h\<close>): every read of the flag (the loop heads, \<^verbatim>\<open>wait\<close>) is made holding
  the mutex, and every assignment to the flag is made without it. A thread blocked or woken
  on \<open>m\<close> holds the mutex again when it goes on. The invariant: every thread keeps this
  discipline from where it stands, the owner of the mutex is a thread, and every access to
  the flag recorded in the trace kept it.
\<close>

fun discipline :: "monitor \<Rightarrow> bool \<Rightarrow> action list \<Rightarrow> bool" where
  "discipline m h [] = True"
| "discipline m h (Lock m' # p) = discipline m (h \<or> m' = m) p"
| "discipline m h (Unlock m' # p) = discipline m (h \<and> m' \<noteq> m) p"
| "discipline m h (Store m' b # p) = ((m' \<noteq> m \<or> \<not> h) \<and> discipline m h p)"
| "discipline m h (WhileNotFlag m' # p) = ((m' \<noteq> m \<or> h) \<and> discipline m h p)"
| "discipline m h (WaitPred m' # p) = ((m' \<noteq> m \<or> h) \<and> discipline m h p)"
| "discipline m h (Wait m' # p) = ((m' \<noteq> m \<or> h) \<and> discipline m h p)"
| "discipline m h (Detach body # p) = (discipline m False body \<and> discipline m h p)"
| "discipline m h (a # p) = discipline m h p"

definition waiting_on :: "monitor \<Rightarrow> thread \<Rightarrow> bool" where
  "waiting_on m th = (status th = Blocked m \<or> status th = Woken m)"

definition will_hold :: "monitor \<Rightarrow> nat \<Rightarrow> state \<Rightarrow> bool" where
  "will_hold m t s = (owner s m = Some t \<or> waiting_on m (threads s ! t))"

fun access_ok :: "monitor \<Rightarrow> event \<Rightarrow> bool" where
  "access_ok m (FlagRead m' v h) = (m' \<noteq> m \<or> h)"
| "access_ok m (FlagWrite m' v h) = (m' \<noteq> m \<or> \<not> h)"
| "access_ok m e = True"

definition lock_inv :: "monitor \<Rightarrow> state \<Rightarrow> bool" where
  "lock_inv m s =
     ((\<forall>t < length (threads s). discipline m (will_hold m t s) (prog (threads s ! t)))
      \<and> (\<forall>t. owner s m = Some t \<longrightarrow> t < length (threads s))
      \<and> (\<forall>u e. (u, e) \<in> set (trace s) \<longrightarrow> access_ok m e))"

text \<open>
  A thread has assigned \<open>True\<close> to the flag of \<open>m\<close>; in a list of statements every
  \<^verbatim>\<open>notify_all\<close> on \<open>m\<close> comes after such an assignment of the same thread (\<open>w\<close>: it
  has been made already); and the invariant for the threads and the trace.
\<close>

definition wrote :: "monitor \<Rightarrow> nat \<Rightarrow> trace \<Rightarrow> bool" where
  "wrote m t tr = ((t, FlagWrite m True True) \<in> set tr \<or> (t, FlagWrite m True False) \<in> set tr)"

fun notify_after_store :: "monitor \<Rightarrow> bool \<Rightarrow> action list \<Rightarrow> bool" where
  "notify_after_store m w [] = True"
| "notify_after_store m w (Store m' b # p) = notify_after_store m (w \<or> (m' = m \<and> b)) p"
| "notify_after_store m w (NotifyAll m' # p) = ((m' \<noteq> m \<or> w) \<and> notify_after_store m w p)"
| "notify_after_store m w (Detach q # p) = (notify_after_store m False q \<and> notify_after_store m w p)"
| "notify_after_store m w (a # p) = notify_after_store m w p"

definition notify_inv :: "monitor \<Rightarrow> state \<Rightarrow> bool" where
  "notify_inv m s =
     ((\<forall>t < length (threads s). notify_after_store m (wrote m t (trace s)) (prog (threads s ! t)))
      \<and> (\<forall>xs t ys. trace s = xs @ (t, Notified m) # ys \<longrightarrow> wrote m t xs))"

text \<open>
  A thread has read the flag of \<open>m\<close> as true; and in a trace, every event of \<open>E\<close> of
  thread \<open>t\<close> comes after such a read by \<open>t\<close>.
\<close>

definition observed :: "monitor \<Rightarrow> nat \<Rightarrow> trace \<Rightarrow> bool" where
  "observed m t tr = ((t, FlagRead m True True) \<in> set tr \<or> (t, FlagRead m True False) \<in> set tr)"

definition observed_before :: "monitor \<Rightarrow> nat \<Rightarrow> event set \<Rightarrow> trace \<Rightarrow> bool" where
  "observed_before m t E tr = (\<forall>xs e ys. tr = xs @ (t, e) # ys \<longrightarrow> e \<in> E \<longrightarrow> observed m t xs)"

text \<open>
  \<open>raceTest\<close>: the statements of the orchestrating thread after its wait loop, and the
  invariant of that thread: it is before the loop, inside it, or past it having read the
  flag as true; and its sleep of \<open>MAIN_WAIT\<close> comes after such a read.
\<close>

definition raceTest_rest :: "action list" where
  "raceTest_rest = [SleepFor MAIN_WAIT, Cout ''\<newline>'', Unlock Race]"

definition race_inv :: "string \<Rightarrow> string \<Rightarrow> state \<Rightarrow> bool" where
  "race_inv r h s =
     (threads s \<noteq> []
      \<and> ((\<exists>pre. raceTest r h = pre @ prog (threads s ! 0) \<and> length pre \<le> 3)
         \<or> in_wait_loop Race raceTest_rest (prog (threads s ! 0))
         \<or> (observed Race 0 (trace s) \<and> (\<exists>pre. raceTest_rest = pre @ prog (threads s ! 0))))
      \<and> observed_before Race 0 {Slept MAIN_WAIT} (trace s))"

text \<open>
  \<open>monitorTest\<close>: the statements of the second thread after its wait loop, the whole
  output of the first thread, and the invariant. The orchestrating thread has executed a
  prefix of its statements and created the threads this prefix detaches. The first thread,
  once created, has executed a prefix of its statements, its output so far is the output of
  this prefix, and the flag is true only if the prefix holds the assignment. The second
  thread, once created, is before or inside its wait loop, or past it with the flag true and
  read as true. In the trace, the output of the first thread is complete before any output
  of the second thread, and that output comes after the second thread read the flag as
  true.
\<close>

definition monitorTest_second_rest :: "string \<Rightarrow> action list" where
  "monitorTest_second_rest hamlet_text =
     Cout ''Hamlet Act III Scene I: \<newline>'' # displayTextSlowly hamlet_text TEXT_DELAY @ [Unlock Print]"

definition first_output :: "string \<Rightarrow> string" where
  "first_output rock_text = ''I Wanna Rock by Twisted Sister: \<newline>'' @ rock_text @ ''\<newline>''"

definition ordered_trace :: "string \<Rightarrow> trace \<Rightarrow> bool" where
  "ordered_trace full tr = (\<forall>xs c ys. tr = xs @ (2, Stdout c) # ys \<longrightarrow> stdout_by 1 xs = full)"

definition main_ok :: "string \<Rightarrow> string \<Rightarrow> state \<Rightarrow> bool" where
  "main_ok r h s =
     (threads s \<noteq> [] \<and>
      (\<exists>pre. monitorTest r h = pre @ prog (threads s ! 0)
          \<and> length (threads s) = Suc (min 2 (length pre - 1))))"

definition first_ok :: "string \<Rightarrow> state \<Rightarrow> bool" where
  "first_ok r s =
     (if 1 < length (threads s)
      then \<exists>pre. monitorTest_first r = pre @ prog (threads s ! 1)
             \<and> stdout_by 1 (trace s) = stdout_of pre
             \<and> (flag s Print \<longrightarrow> Store Print True \<in> set pre)
      else \<not> flag s Print \<and> stdout_by 1 (trace s) = [])"

definition second_ok :: "string \<Rightarrow> state \<Rightarrow> bool" where
  "second_ok h s =
     (2 < length (threads s) \<longrightarrow>
        prog (threads s ! 2) = monitorTest_second h
        \<or> in_wait_loop Print (monitorTest_second_rest h) (prog (threads s ! 2))
        \<or> (flag s Print \<and> observed Print 2 (trace s)
            \<and> (\<exists>pre. monitorTest_second_rest h = pre @ prog (threads s ! 2))))"

definition monitor_inv :: "string \<Rightarrow> string \<Rightarrow> state \<Rightarrow> bool" where
  "monitor_inv r h s =
     (main_ok r h s \<and> first_ok r s \<and> second_ok h s \<and> ordered_trace (first_output r) (trace s)
      \<and> observed_before Print 2 (range Stdout) (trace s))"

text \<open>
  What is seen of a state for one monitor: the flag, and the status and the remaining
  statements of every thread.
\<close>

definition snapshot :: "monitor \<Rightarrow> state \<Rightarrow> bool \<times> status list \<times> action list list" where
  "snapshot m s = (flag s m, map status (threads s), map prog (threads s))"

text \<open>
  The shape of both demos: the orchestrating thread prints a banner, creates two threads
  with the bodies \<open>b1\<close> and \<open>b2\<close>, and goes on with \<open>rest\<close>. A list of statements
  creates no thread (\<open>spawn_free\<close>); it holds only statements that a running thread can
  always execute and that leave it running: output, sleep, assignment, notification
  (\<open>nonblocking\<close>). A thread is a residual of \<open>body\<close> when its statements create no
  thread, hold no assignment to the flag of \<open>m\<close> if \<open>body\<close> holds none, and, if \<open>body\<close> is
  nonblocking, are nonblocking too with the thread running. The signalling thread is thread
  \<open>i\<close>, the first or the second thread created: its body is nonblocking, and neither the
  other body nor \<open>rest\<close> assigns to the flag. The invariant: the threads that exist are
  those created by the statements the orchestrating thread has executed, each a residual of
  its body, and every write to the flag in the trace was made by thread \<open>i\<close>.
\<close>

fun spawn_free :: "action list \<Rightarrow> bool" where
  "spawn_free [] = True"
| "spawn_free (Detach q # p) = False"
| "spawn_free (a # p) = spawn_free p"

fun nonblocking :: "action list \<Rightarrow> bool" where
  "nonblocking [] = True"
| "nonblocking (Cout str # p) = nonblocking p"
| "nonblocking (Cerr str # p) = nonblocking p"
| "nonblocking (Putchar c # p) = nonblocking p"
| "nonblocking (SleepFor d # p) = nonblocking p"
| "nonblocking (Store m b # p) = nonblocking p"
| "nonblocking (NotifyAll m # p) = nonblocking p"
| "nonblocking (a # p) = False"

definition residual :: "monitor \<Rightarrow> action list \<Rightarrow> thread \<Rightarrow> bool" where
  "residual m body th =
     (spawn_free (prog th)
      \<and> (stores m body = [] \<longrightarrow> stores m (prog th) = [])
      \<and> (nonblocking body \<longrightarrow> nonblocking (prog th) \<and> status th = Running))"



section \<open>Properties of readFile\<close>

lemma readLoop_failed: "failbit inp \<Longrightarrow> readLoop inp line data = data"
  by (subst readLoop.simps) simp

lemma readLoop_step:
  "\<not> failbit inp \<Longrightarrow> readLoop inp line data =
     readLoop (fst (getline inp line)) (snd (getline inp line))
       (data @ snd (getline inp line) @ ''\<newline>'')"
  by (subst readLoop.simps) simp

lemma takeWhile_until:
  "x \<notin> set l \<Longrightarrow> takeWhile (\<lambda>c. c \<noteq> x) (l @ r) = l @ takeWhile (\<lambda>c. c \<noteq> x) r"
  by (induction l) auto

lemma dropWhile_until:
  "x \<notin> set l \<Longrightarrow> dropWhile (\<lambda>c. c \<noteq> x) (l @ r) = dropWhile (\<lambda>c. c \<noteq> x) r"
  by (induction l) auto

lemma takeWhile_all: "x \<notin> set l \<Longrightarrow> takeWhile (\<lambda>c. c \<noteq> x) l = l"
  by (induction l) auto

lemma dropWhile_all: "x \<notin> set l \<Longrightarrow> dropWhile (\<lambda>c. c \<noteq> x) l = []"
  by (induction l) auto

lemma takeWhile_upto:
  "x \<in> set l \<Longrightarrow> takeWhile (\<lambda>c. c \<noteq> x) (l @ r) = takeWhile (\<lambda>c. c \<noteq> x) l"
  by (induction l) auto

lemma getline_not_good: "\<not> good inp \<Longrightarrow> getline inp line = (inp\<lparr>failbit := True\<rparr>, line)"
  by (simp add: getline_def)

lemma getline_newline:
  assumes "good inp" and "buffer inp = l @ CHR ''\<newline>'' # r" and "CHR ''\<newline>'' \<notin> set l"
  shows "getline inp line = (inp\<lparr>buffer := r\<rparr>, l)"
proof -
  have tw: "takeWhile (\<lambda>c. c \<noteq> CHR ''\<newline>'') (buffer inp) = l"
    and dw: "dropWhile (\<lambda>c. c \<noteq> CHR ''\<newline>'') (buffer inp) = CHR ''\<newline>'' # r"
    using assms(2,3) by (simp_all add: takeWhile_until dropWhile_until)
  show ?thesis using assms(1) by (simp add: getline_def tw dw)
qed

lemma getline_eof:
  assumes "good inp" and "CHR ''\<newline>'' \<notin> set (buffer inp)"
  shows "getline inp line =
           (inp\<lparr>buffer := [], eofbit := True, failbit := (buffer inp = [])\<rparr>, buffer inp)"
proof -
  have tw: "takeWhile (\<lambda>c. c \<noteq> CHR ''\<newline>'') (buffer inp) = buffer inp"
    and dw: "dropWhile (\<lambda>c. c \<noteq> CHR ''\<newline>'') (buffer inp) = []"
    using assms(2) by (rule takeWhile_all, rule dropWhile_all)
  show ?thesis using assms(1)
    by (simp add: getline_def tw dw Let_def del: takeWhile_eq_all_conv dropWhile_eq_Nil_conv)
qed

lemma last_line_no_newline: "CHR ''\<newline>'' \<notin> set s \<Longrightarrow> last_line s = s"
proof -
  assume "CHR ''\<newline>'' \<notin> set s"
  then have "takeWhile (\<lambda>c. c \<noteq> CHR ''\<newline>'') (rev s) = rev s"
    by (intro takeWhile_all) simp
  then show ?thesis unfolding last_line_def by (simp only: rev_rev_ident)
qed

lemma last_line_after_newline:
  assumes "r \<noteq> []" and "last r \<noteq> CHR ''\<newline>''"
  shows "last_line (l @ CHR ''\<newline>'' # r) = last_line r"
proof (cases "CHR ''\<newline>'' \<in> set r")
  case True
  then show ?thesis by (simp add: last_line_def takeWhile_upto)
next
  case False
  then have "CHR ''\<newline>'' \<notin> set (rev r)" by simp
  then have "takeWhile (\<lambda>c. c \<noteq> CHR ''\<newline>'') (rev r @ CHR ''\<newline>'' # rev l) =
             rev r @ takeWhile (\<lambda>c. c \<noteq> CHR ''\<newline>'') (CHR ''\<newline>'' # rev l)"
    and "takeWhile (\<lambda>c. c \<noteq> CHR ''\<newline>'') (rev r) = rev r"
    by (rule takeWhile_until, rule takeWhile_all)
  then show ?thesis unfolding last_line_def by (simp del: takeWhile_eq_all_conv)
qed

text \<open>
  A buffer without a newline. The first \<^verbatim>\<open>getline\<close> takes all of it and reaches the end
  of the file. When it took nothing it fails and the loop ends; otherwise the stream still
  tests true, and the next \<^verbatim>\<open>getline\<close> fails at its sentry and leaves the line as it was,
  which the loop body appends once more.
\<close>

lemma readLoop_eof:
  assumes "CHR ''\<newline>'' \<notin> set b"
  shows "readLoop \<lparr>buffer = b, eofbit = False, failbit = False\<rparr> line data =
           (if b = [] then data @ ''\<newline>'' else data @ b @ ''\<newline>'' @ b @ ''\<newline>'')"
proof -
  let ?inp = "\<lparr>buffer = b, eofbit = False, failbit = False\<rparr>"
  let ?inp' = "\<lparr>buffer = [], eofbit = True, failbit = (b = [])\<rparr>"
  have g: "getline ?inp line = (?inp', b)"
    using getline_eof [of ?inp line] assms by (simp add: good_def)
  have first: "readLoop ?inp line data = readLoop ?inp' b (data @ b @ ''\<newline>'')"
    using readLoop_step [of ?inp line data] g by simp
  show ?thesis
  proof (cases "b = []")
    case True
    then show ?thesis using first by (simp add: readLoop_failed)
  next
    case False
    have g': "getline ?inp' b = (?inp'\<lparr>failbit := True\<rparr>, b)"
      by (rule getline_not_good) (simp add: good_def)
    have "readLoop ?inp' b (data @ b @ ''\<newline>'') =
          readLoop (?inp'\<lparr>failbit := True\<rparr>) b ((data @ b @ ''\<newline>'') @ b @ ''\<newline>'')"
      using False readLoop_step [of ?inp' b "data @ b @ ''\<newline>''"] g' by simp
    then show ?thesis using first False by (simp add: readLoop_failed)
  qed
qed

lemma readLoop_content:
  "readLoop \<lparr>buffer = b, eofbit = False, failbit = False\<rparr> line data =
     data @ (if b = [] \<or> last b = CHR ''\<newline>'' then b @ ''\<newline>''
             else b @ ''\<newline>'' @ last_line b @ ''\<newline>'')"
proof (induction b arbitrary: line data rule: length_induct)
  case (1 b)
  show ?case
  proof (cases "CHR ''\<newline>'' \<in> set b")
    case False
    have "last b \<noteq> CHR ''\<newline>''" if "b \<noteq> []"
      using False last_in_set [OF that] by auto
    then show ?thesis using False by (simp add: readLoop_eof last_line_no_newline)
  next
    case True
    then obtain l r where b: "b = l @ CHR ''\<newline>'' # r" and l: "CHR ''\<newline>'' \<notin> set l"
      by (meson split_list_first)
    let ?inp = "\<lparr>buffer = b, eofbit = False, failbit = False\<rparr>"
    have g: "getline ?inp line = (?inp\<lparr>buffer := r\<rparr>, l)"
      by (rule getline_newline) (simp_all add: good_def b l)
    have "length r < length b" using b by simp
    then have ih: "readLoop \<lparr>buffer = r, eofbit = False, failbit = False\<rparr> l' d' =
        d' @ (if r = [] \<or> last r = CHR ''\<newline>'' then r @ ''\<newline>''
             else r @ ''\<newline>'' @ last_line r @ ''\<newline>'')" for l' d'
      using 1 by blast
    have "readLoop ?inp line data =
          readLoop \<lparr>buffer = r, eofbit = False, failbit = False\<rparr> l (data @ l @ ''\<newline>'')"
      using readLoop_step [of ?inp line data] g by simp
    also have "\<dots> = data @ (if b = [] \<or> last b = CHR ''\<newline>'' then b @ ''\<newline>''
             else b @ ''\<newline>'' @ last_line b @ ''\<newline>'')"
      unfolding ih using b by (simp add: last_line_after_newline)
    finally show ?thesis .
  qed
qed

text \<open>
  What \<open>readFile\<close> returns for a file that opens: the content and one more newline when
  the content is empty or ends in a newline; otherwise the content, a newline, and the last
  line a second time with its newline.
\<close>

lemma readFile_content:
  "fs fileName = Some content \<Longrightarrow>
   readFile fs fileName =
     ([], Returned (if content = [] \<or> last content = CHR ''\<newline>'' then content @ ''\<newline>''
                    else content @ ''\<newline>'' @ last_line content @ ''\<newline>''))"
  using readLoop_content [of content "[]" "[]"]
  by (simp add: readFile_def ifstream_open_def)

text \<open>
  C5. The claim: for a file that exists and is not empty, \<open>readFile\<close> returns the content
  with every line ended by a newline, one newline added when the file lacks the last one
  and nothing added otherwise. The code runs its loop body once more than there are lines.
  For the file \<open>abc\<close> it returns \<open>abc\<close>, a newline, \<open>abc\<close> again and a newline, where
  the claim gives \<open>abc\<close> and a newline; for the file \<open>abc\<close> with its newline it returns
  two newlines after \<open>abc\<close>, where the claim gives the content unchanged.
\<close>

theorem readFile_repeats_last_line:
  "readFile (Map.empty(''hamlet.txt'' \<mapsto> ''abc'')) ''hamlet.txt''
     = ([], Returned ''abc\<newline>abc\<newline>'')
   \<and> readFile (Map.empty(''hamlet.txt'' \<mapsto> ''abc\<newline>'')) ''hamlet.txt''
     = ([], Returned ''abc\<newline>\<newline>'')"
  by (simp add: readFile_content last_line_def)

text \<open>
  C6. When the file cannot be opened, \<open>readFile\<close> executes one statement, the message on
  the error stream, and ends the process with exit status 1: it returns no text, and the
  stream is never read.
\<close>

theorem readFile_cannot_open:
  "fs fileName = None \<Longrightarrow>
   readFile fs fileName = ([Cerr ''Fatal Error: Could not open input file\<newline>''], Exited 1)"
  by (simp add: readFile_def ifstream_open_def)

theorem readFile_cannot_open_witness:
  "Map.empty ''hamlet.txt'' = (None :: string option)
   \<and> readFile Map.empty ''hamlet.txt''
       = ([Cerr ''Fatal Error: Could not open input file\<newline>''], Exited 1)"
  using readFile_cannot_open [of Map.empty "''hamlet.txt''"] by simp

text \<open>
  C10. For a file that opens, \<open>readFile\<close> returns a text that is not empty and ends in a
  newline; for the empty file it returns the text made of one newline.
\<close>

theorem readFile_never_empty:
  "fs fileName = Some content \<Longrightarrow>
   \<exists>data. readFile fs fileName = ([], Returned data) \<and> data \<noteq> [] \<and> last data = CHR ''\<newline>''
      \<and> (content = [] \<longrightarrow> data = ''\<newline>'')"
  by (simp add: readFile_content)

theorem readFile_never_empty_witness:
  "(Map.empty(''hamlet.txt'' \<mapsto> [])) ''hamlet.txt'' = Some []
   \<and> readFile (Map.empty(''hamlet.txt'' \<mapsto> [])) ''hamlet.txt'' = ([], Returned ''\<newline>'')"
  using readFile_never_empty [of "Map.empty(''hamlet.txt'' \<mapsto> [])" "''hamlet.txt''" "[]"]
  by auto

section \<open>Properties of displayTextSlowly\<close>




text \<open>
  C7. On the empty text \<open>displayTextSlowly\<close> executes no statement at all, whatever the
  delay: it writes no character and does not sleep.
\<close>

theorem displayTextSlowly_empty:
  "displayTextSlowly [] delay = [] \<and> stdout_of (displayTextSlowly [] delay) = []"
  by simp










section \<open>The orchestrating thread of monitorTest\<close>

lemma monitorTest_wait_of_nat:
  "monitorTest_wait rock hamlet = of_nat (1000 + (length rock + length hamlet) * 3)"
  by (simp add: monitorTest_wait_def MAIN_WAIT_def TEXT_DELAY_def)

lemma sint_of_nat_small:
  assumes "n < 2 ^ 63"
  shows "sint (of_nat n :: 64 word) = int n"
proof -
  have "(of_nat n :: 64 word) = word_of_int (int n)" by simp
  then have "sint (of_nat n :: 64 word) = signed_take_bit 63 (int n)"
    by (simp only: sint_sbintrunc') simp
  also have "\<dots> = int n"
  proof (rule signed_take_bit_int_eq_self)
    show "- (2 ^ 63) \<le> int n" by (rule order_trans [of _ 0]) simp_all
    have "int n < int (2 ^ 63)" using assms by (simp only: of_nat_less_iff)
    then show "int n < 2 ^ 63" by simp
  qed
  finally show ?thesis .
qed

text \<open>
  C9. The thread that runs \<open>monitorTest\<close> executes one sleep, of
  \<open>MAIN_WAIT + (|rock_text| + |hamlet_text|) * TEXT_DELAY\<close> milliseconds, and none of its
  own statements touches a monitor. The duration is computed in 64 bits and is the stated
  number whenever that number fits the signed 64-bit count, as it does for any two texts a
  machine can hold (their sizes add up to less than \<open>2 ^ 61\<close>).
\<close>

theorem monitorTest_sleep:
  assumes "1000 + (length rock_text + length hamlet_text) * 3 < 2 ^ 63"
  shows "sleeps_of (monitorTest rock_text hamlet_text) = [monitorTest_wait rock_text hamlet_text]
       \<and> sint (monitorTest_wait rock_text hamlet_text)
           = sint MAIN_WAIT + (int (length rock_text) + int (length hamlet_text)) * sint TEXT_DELAY
       \<and> filter uses_monitor (monitorTest rock_text hamlet_text) = []"
proof -
  have "sint (monitorTest_wait rock_text hamlet_text)
          = int (1000 + (length rock_text + length hamlet_text) * 3)"
    unfolding monitorTest_wait_of_nat using assms by (rule sint_of_nat_small)
  then show ?thesis
    by (simp add: monitorTest_def MAIN_WAIT_def TEXT_DELAY_def)
qed

theorem monitorTest_sleep_witness:
  "1000 + (length ''ab'' + length ''cde'') * 3 < (2::nat) ^ 63
   \<and> sleeps_of (monitorTest ''ab'' ''cde'') = [monitorTest_wait ''ab'' ''cde'']
   \<and> sint (monitorTest_wait ''ab'' ''cde'') = 1015"
proof -
  have h: "1000 + (length ''ab'' + length ''cde'') * 3 < (2::nat) ^ 63" by simp
  show ?thesis using h monitorTest_sleep [OF h] by (simp add: MAIN_WAIT_def TEXT_DELAY_def)
qed

section \<open>Steps and runs\<close>

lemmas sem_defs = continue_def emit_def set_status_def acquire_def release_def

lemma step_cases [consumes 1, case_names Wake Reacquire Exec]:
  assumes "step t s = Some s'"
  obtains
    m where "t < length (threads s)" "status (threads s ! t) = Blocked m"
      "s' = set_status t (Woken m) s"
  | m where "t < length (threads s)" "status (threads s ! t) = Woken m" "owner s m = None"
      "s' = set_status t Running (acquire t m s)"
  | a p where "t < length (threads s)" "status (threads s ! t) = Running"
      "prog (threads s ! t) = a # p" "exec t a p s = Some s'"
  using assms
  by (auto simp: step_def split: if_splits status.splits list.splits)

lemma prog_wake [simp]: "prog (wake m th) = prog th"
  by (simp add: wake_def)

lemma waiting_on_wake [simp]: "waiting_on m (wake m' th) = waiting_on m th"
  by (auto simp: wake_def waiting_on_def)

lemma waiting_on_simps [simp]:
  "waiting_on m (th\<lparr>prog := p\<rparr>) = waiting_on m th"
  "waiting_on m (th\<lparr>status := Running\<rparr>) = False"
  "waiting_on m (th\<lparr>status := Blocked m'\<rparr>) = (m' = m)"
  "waiting_on m (th\<lparr>status := Woken m'\<rparr>) = (m' = m)"
  "status th = Running \<Longrightarrow> waiting_on m th = False"
  by (auto simp: waiting_on_def)

lemma step_length: "step t s = Some s' \<Longrightarrow> length (threads s) \<le> length (threads s')"
  by (cases rule: step_cases, assumption)
     (auto simp: sem_defs elim!: exec.elims split: if_splits)

lemma step_frame_prog:
  "step t s = Some s' \<Longrightarrow> u \<noteq> t \<Longrightarrow> u < length (threads s) \<Longrightarrow>
   prog (threads s' ! u) = prog (threads s ! u)"
  by (cases rule: step_cases, assumption)
     (auto simp: sem_defs nth_append elim!: exec.elims split: if_splits)

lemma step_frame_hold:
  "step t s = Some s' \<Longrightarrow> u \<noteq> t \<Longrightarrow> u < length (threads s) \<Longrightarrow>
   will_hold m u s' = will_hold m u s"
  by (cases rule: step_cases, assumption)
     (auto simp: sem_defs nth_append will_hold_def elim!: exec.elims split: if_splits)

lemma exec_trace:
  "exec t a p s = Some s' \<Longrightarrow> trace s' = trace s @ map (Pair t) (events t a s)"
  by (cases a) (auto simp: sem_defs split: if_splits)


lemma exec_prog:
  assumes "exec t a p s = Some s'" and "t < length (threads s)"
  shows "prog (threads s' ! t) = next_prog a p s"
  using assms by (cases a) (auto simp: sem_defs nth_append split: if_splits)

lemma exec_length:
  assumes "exec t a p s = Some s'"
  shows "length (threads s') = length (threads s) + (case a of Detach q \<Rightarrow> 1 | _ \<Rightarrow> 0)"
  using assms by (cases a) (auto simp: sem_defs split: if_splits)

lemma exec_new:
  assumes "exec t a p s = Some s'" and "length (threads s) \<le> u" and "u < length (threads s')"
  shows "\<exists>q. a = Detach q \<and> u = length (threads s)
            \<and> threads s' ! u = \<lparr>prog = q, status = Running\<rparr>"
  using assms by (cases a) (auto simp: sem_defs nth_append split: if_splits)

lemma exec_flag:
  assumes "exec t a p s = Some s'"
  shows "flag s' m = (case a of Store m' b \<Rightarrow> if m' = m then b else flag s m | _ \<Rightarrow> flag s m)"
  using assms by (cases a) (auto simp: sem_defs split: if_splits)




lemma step_trace_writes:
  assumes "step t s = Some s'" and "(u, FlagWrite m w j) \<in> set (trace s')"
  shows "(u, FlagWrite m w j) \<in> set (trace s)
       \<or> (u = t \<and> (\<exists>p. prog (threads s ! t) = Store m w # p))"
  using assms(1)
proof (cases rule: step_cases)
  case (Exec a p)
  have tr: "trace s' = trace s @ map (Pair t) (events t a s)" using Exec(4) by (rule exec_trace)
  show ?thesis
  proof (cases "(u, FlagWrite m w j) \<in> set (trace s)")
    case False
    then have "(u, FlagWrite m w j) \<in> set (map (Pair t) (events t a s))"
      using assms(2) tr by auto
    then have "u = t" "a = Store m w" by (cases a; auto)+
    then show ?thesis using Exec(3) by simp
  qed simp
qed (use assms(2) in \<open>auto simp: sem_defs\<close>)

lemma run_append:
  "run (xs @ ys) s = (case run xs s of None \<Rightarrow> None | Some s' \<Rightarrow> run ys s')"
  by (induction xs arbitrary: s) (auto split: option.splits)

lemma run_snoc:
  "run (xs @ [t]) s = (case run xs s of None \<Rightarrow> None | Some s' \<Rightarrow> step t s')"
  by (simp add: run_append split: option.splits)

lemma run_invariant:
  assumes "run sched s = Some s'" and "P s"
    and "\<And>t s s'. P s \<Longrightarrow> step t s = Some s' \<Longrightarrow> P s'"
  shows "P s'"
  using assms(1,2)
proof (induction sched arbitrary: s)
  case Nil
  then show ?case by simp
next
  case (Cons t sched)
  then show ?case by (auto split: option.splits intro: assms(3))
qed


lemma append_eq_split:
  assumes "tr @ es = xs @ e # ys"
  obtains (old) us where "tr = xs @ e # us" "ys = us @ es"
        | (new) us where "xs = tr @ us" "es = us @ e # ys"
proof -
  from assms consider us where "tr = xs @ us" "us @ es = e # ys"
    | us where "tr @ us = xs" "es = us @ e # ys"
    by (auto simp: append_eq_append_conv2)
  then show thesis
  proof cases
    case 1
    then show ?thesis using old new [of "[]"] by (cases us) auto
  next
    case 2
    then show ?thesis using new by auto
  qed
qed

subsection \<open>Projections of a trace\<close>

lemma writes_append [simp]: "writes m (tr @ tr') = writes m tr @ writes m tr'"
  by (induction m tr rule: writes.induct) auto

lemma stdout_by_append [simp]: "stdout_by t (tr @ tr') = stdout_by t tr @ stdout_by t tr'"
  by (induction t tr rule: stdout_by.induct) auto

lemma writes_Stdout [simp]:
  "writes m (map (\<lambda>c. (t, Stdout c)) str) = []" "writes m (map (Pair t \<circ> Stdout) str) = []"
  by (induction str) auto

lemma writes_Stderr [simp]:
  "writes m (map (\<lambda>c. (t, Stderr c)) str) = []" "writes m (map (Pair t \<circ> Stderr) str) = []"
  by (induction str) auto

lemma writes_events:
  "writes m (map (Pair t) (events t a s)) = (case a of Detach q \<Rightarrow> [] | _ \<Rightarrow> stores m [a])"
  by (cases a) (auto simp: comp_def)

lemma write_in_writes: "(u, FlagWrite m v k) \<in> set tr \<Longrightarrow> v \<in> set (writes m tr)"
  by (induction m tr rule: writes.induct) auto

lemma stdout_by_other [simp]: "u \<noteq> t \<Longrightarrow> stdout_by u (map (Pair t) es) = []"
proof (induction es)
  case (Cons e es)
  then show ?case by (cases e) auto
qed simp

lemma stdout_by_Stdout [simp]:
  "stdout_by t (map (Pair t \<circ> Stdout) str) = str"
  "stdout_by t (map (\<lambda>c. (t, Stdout c)) str) = str"
  by (induction str) auto

lemma stdout_by_Stderr [simp]:
  "stdout_by u (map (Pair t \<circ> Stderr) str) = []"
  "stdout_by u (map (\<lambda>c. (t, Stderr c)) str) = []"
  by (induction str) auto

lemma stdout_by_events [simp]: "stdout_by t (map (Pair t) (events t a s)) = stdout_of [a]"
  by (cases a) auto

lemma stdout_of_append [simp]: "stdout_of (p @ q) = stdout_of p @ stdout_of q"
  by (induction p rule: stdout_of.induct) auto

lemma stdout_of_display [simp]: "stdout_of (displayTextSlowly blob d) = blob"
  by (induction blob) auto

lemma set_display:
  "a \<in> set (displayTextSlowly blob d) \<Longrightarrow> (\<exists>c. a = Putchar c) \<or> a = SleepFor d"
  by (induction blob) auto

lemmas demo_defs = raceTest_def raceTest_first_def raceTest_second_def
  monitorTest_def monitorTest_first_def monitorTest_second_def

section \<open>The lock discipline\<close>

lemma events_access_ok:
  assumes "discipline m (owner s m = Some t) (a # p)" and "e \<in> set (events t a s)"
  shows "access_ok m e"
  using assms by (cases a) auto

lemma lock_inv_exec_self:
  assumes "discipline m (owner s m = Some t) (a # p)" and "exec t a p s = Some s'"
    and "t < length (threads s)" and "status (threads s ! t) = Running"
  shows "discipline m (will_hold m t s') (prog (threads s' ! t))"
  using assms
  by (cases a) (auto simp: sem_defs will_hold_def nth_append split: if_splits)

lemma lock_inv_exec_new:
  assumes "discipline m (owner s m = Some t) (a # p)" and "exec t a p s = Some s'"
    and "t < length (threads s)" and "status (threads s ! t) = Running"
    and "length (threads s) \<le> u" and "u < length (threads s')"
    and "\<forall>t. owner s m = Some t \<longrightarrow> t < length (threads s)"
  shows "discipline m (will_hold m u s') (prog (threads s' ! u))"
proof -
  have "owner s m \<noteq> Some u" using assms(5,7) by auto
  then show ?thesis using assms(1-6)
    by (cases a) (auto simp: sem_defs will_hold_def nth_append waiting_on_def split: if_splits)
qed

lemma step_owner:
  assumes "step t s = Some s'" and "\<forall>t. owner s m = Some t \<longrightarrow> t < length (threads s)"
  shows "\<forall>t. owner s' m = Some t \<longrightarrow> t < length (threads s')"
  using assms
  by (cases rule: step_cases) (auto simp: sem_defs elim!: exec.elims split: if_splits)

lemma lock_inv_step:
  assumes "lock_inv m s" and "step t s = Some s'"
  shows "lock_inv m s'"
proof -
  have owners: "\<forall>t. owner s m = Some t \<longrightarrow> t < length (threads s)"
    using assms(1) by (simp add: lock_inv_def)
  have others: "discipline m (will_hold m u s') (prog (threads s' ! u))"
    if "u \<noteq> t" "u < length (threads s)" for u
    using assms that by (simp add: step_frame_hold step_frame_prog lock_inv_def)
  have self_new: "discipline m (will_hold m u s') (prog (threads s' ! u))"
    if "u = t \<or> length (threads s) \<le> u" "u < length (threads s')" for u
    using assms(2)
  proof (cases rule: step_cases)
    case (Wake m')
    then have "discipline m (will_hold m t s) (prog (threads s ! t))"
      using assms(1) by (simp add: lock_inv_def)
    then show ?thesis using Wake that
      by (auto simp: will_hold_def waiting_on_def sem_defs)
  next
    case (Reacquire m')
    then have "discipline m (will_hold m t s) (prog (threads s ! t))"
      using assms(1) by (simp add: lock_inv_def)
    then show ?thesis using Reacquire that
      by (auto simp: will_hold_def waiting_on_def sem_defs)
  next
    case (Exec a p)
    have here: "discipline m (owner s m = Some t) (a # p)"
      using assms(1) Exec(1,2,3) by (auto simp: lock_inv_def will_hold_def)
    show ?thesis
      using lock_inv_exec_self [OF here Exec(4,1,2)]
        lock_inv_exec_new [OF here Exec(4,1,2) _ that(2) owners] that(1) by auto
  qed
  have tr: "access_ok m e" if "(v, e) \<in> set (trace s')" for v e
    using assms(2)
  proof (cases rule: step_cases)
    case (Exec a p)
    have here: "discipline m (owner s m = Some t) (a # p)"
      using assms(1) Exec(1,2,3) by (auto simp: lock_inv_def will_hold_def)
    show ?thesis using that exec_trace [OF Exec(4)] events_access_ok [OF here] assms(1)
      by (auto simp: lock_inv_def)
  qed (use that assms(1) in \<open>auto simp: lock_inv_def sem_defs\<close>)
  have all: "discipline m (will_hold m u s') (prog (threads s' ! u))"
    if "u < length (threads s')" for u
    using others [of u] self_new [of u] that by (cases "u = t \<or> length (threads s) \<le> u") auto
  show ?thesis
    unfolding lock_inv_def using all tr step_owner [OF assms(2) owners] by blast
qed

lemma lock_inv_start: "discipline m False p \<Longrightarrow> lock_inv m (start p)"
  by (simp add: lock_inv_def start_def will_hold_def waiting_on_def)

lemma lock_inv_run:
  "run sched (start p) = Some s \<Longrightarrow> discipline m False p \<Longrightarrow> lock_inv m s"
  by (erule run_invariant [where P = "lock_inv m"]) (auto intro: lock_inv_start lock_inv_step)

lemma discipline_display [simp]:
  "discipline m h (displayTextSlowly blob d @ q) = discipline m h q"
  by (induction blob) auto

lemma discipline_display' [simp]: "discipline m h (displayTextSlowly blob d)"
  using discipline_display [of m h blob d "[]"] by simp

lemma discipline_demos:
  "discipline m False (raceTest rock hamlet)" "discipline m False (monitorTest rock hamlet)"
  by (simp_all add: demo_defs)

section \<open>Assignments to a flag\<close>

lemma pend_simps [simp]:
  "pend m [] = 0" "pend m (th # ths) = length (stores m (prog th)) + pend m ths"
  "pend m (xs @ ys) = pend m xs + pend m ys"
  by (simp_all add: pend_def)

lemma pend_map_wake [simp]: "pend m (map (wake m') ths) = pend m ths"
  by (induction ths) auto

lemma pend_update:
  "t < length ths \<Longrightarrow>
   pend m (ths[t := th']) + length (stores m (prog (ths ! t)))
     = pend m ths + length (stores m (prog th'))"
  by (induction ths arbitrary: t) (auto split: nat.splits)

lemma pend_status [simp]:
  "t < length ths \<Longrightarrow> pend m (ths[t := (ths ! t)\<lparr>status := st\<rparr>]) = pend m ths"
  using pend_update [of t ths m "(ths ! t)\<lparr>status := st\<rparr>"] by simp


lemma pending_exec:
  assumes "exec t a p s = Some s'" and "t < length (threads s)"
    and "prog (threads s ! t) = a # p" and "status (threads s ! t) = Running"
  shows "length (writes m (trace s')) + pend m (threads s')
       = length (writes m (trace s)) + pend m (threads s)"
proof -
  have upd: "pend m ((threads s)[t := th']) + length (stores m (a # p))
      = pend m (threads s) + length (stores m (prog th'))" for th'
    using pend_update [OF assms(2), of m th'] assms(3) by simp
  have upd': "pend m ((map (wake m') (threads s))[t := th']) + length (stores m (a # p))
      = pend m (threads s) + length (stores m (prog th'))" for th' m'
    using pend_update [of t "map (wake m') (threads s)" m th'] assms(2,3) by simp
  show ?thesis
  proof (cases a)
    case (NotifyAll m')
    then show ?thesis using assms upd' [of m' "wake m' (threads s ! t)\<lparr>prog := p\<rparr>"]
      by (auto simp: sem_defs)
  next
    case (Store m' b)
    then show ?thesis using assms upd [of "(threads s ! t)\<lparr>prog := p\<rparr>"]
      by (auto simp: sem_defs)
  next
    case (Detach q)
    then show ?thesis using assms upd [of "(threads s ! t)\<lparr>prog := p\<rparr>"]
      by (auto simp: sem_defs)
  next
    case (WhileNotFlag m')
    then show ?thesis using assms upd [of "(threads s ! t)\<lparr>prog := p\<rparr>"]
       upd [of "(threads s ! t)\<lparr>prog := WaitPred m' # WhileNotFlag m' # p\<rparr>"]
      by (auto simp: sem_defs)
  next
    case (WaitPred m')
    then show ?thesis using assms upd [of "(threads s ! t)\<lparr>prog := p\<rparr>"]
       upd [of "(threads s ! t)\<lparr>prog := Wait m' # WaitPred m' # p\<rparr>"]
      by (auto simp: sem_defs)
  next
    case (Wait m')
    then show ?thesis using assms upd [of "(threads s ! t)\<lparr>prog := p\<rparr>"]
        pend_update [of t "(threads s)[t := (threads s ! t)\<lparr>prog := p\<rparr>]" m
           "(threads s ! t)\<lparr>prog := p, status := Blocked m'\<rparr>"]
      by (auto simp: sem_defs split: if_splits)
  qed (use assms upd [of "(threads s ! t)\<lparr>prog := p\<rparr>"] in \<open>auto simp: sem_defs split: if_splits\<close>)
qed

lemma stores_next_prog [simp]: "stores m (next_prog a p s) = stores m p"
  by (cases a) auto

lemma stores_tail: "set (stores m p) \<subseteq> set (stores m (a # p))"
  by (cases a) auto

lemma stores_Detach: "set (stores m q) \<subseteq> set (stores m (Detach q # p))"
  by auto

lemma stores_true_exec:
  assumes "exec t a p s = Some s'" and "t < length (threads s)"
    and "False \<notin> set (stores m (a # p))"
    and "u = t \<or> length (threads s) \<le> u" and "u < length (threads s')"
  shows "False \<notin> set (stores m (prog (threads s' ! u)))"
proof (cases "u = t")
  case True
  then show ?thesis using exec_prog [OF assms(1,2)] assms(3) stores_tail [of m p a] by auto
next
  case False
  then obtain q where "a = Detach q" "threads s' ! u = \<lparr>prog = q, status = Running\<rparr>"
    using exec_new [OF assms(1) _ assms(5)] assms(4) by auto
  then show ?thesis using assms(3) by auto
qed

lemma flag_exec:
  assumes "exec t a p s = Some s'" and "False \<notin> set (stores m (a # p))"
  shows "flag s' m = (flag s m \<or> writes m (map (Pair t) (events t a s)) \<noteq> [])"
proof (cases a)
  case (Store m' b)
  then show ?thesis using assms by (cases b; cases "m' = m") (auto simp: sem_defs)
next
  case (Cout str)
  then show ?thesis using assms by (auto simp: sem_defs comp_def)
next
  case (Cerr str)
  then show ?thesis using assms by (auto simp: sem_defs comp_def)
qed (use assms in \<open>auto simp: sem_defs split: if_splits\<close>)

lemma count_inv_step:
  assumes "count_inv m n s" and "step t s = Some s'"
  shows "count_inv m n s'"
proof -
  have old: "False \<notin> set (stores m (prog (threads s ! u)))" if "u < length (threads s)" for u
    using assms(1) that unfolding count_inv_def by blast
  have others: "False \<notin> set (stores m (prog (threads s' ! u)))"
    if "u \<noteq> t" "u < length (threads s)" for u
    using old [OF that(2)] step_frame_prog [OF assms(2) that] by simp
  show ?thesis
    using assms(2)
  proof (cases rule: step_cases)
    case (Wake m')
    have "False \<notin> set (stores m (prog (threads s' ! u)))" if "u < length (threads s')" for u
      using old [of u] that Wake by (cases "u = t") (simp_all add: sem_defs)
    moreover have "trace s' = trace s" "flag s' = flag s" "pend m (threads s') = pend m (threads s)"
      using Wake by (simp_all add: sem_defs)
    ultimately show ?thesis using assms(1) unfolding count_inv_def by simp
  next
    case (Reacquire m')
    have "False \<notin> set (stores m (prog (threads s' ! u)))" if "u < length (threads s')" for u
      using old [of u] that Reacquire by (cases "u = t") (simp_all add: sem_defs)
    moreover have "trace s' = trace s" "flag s' = flag s" "pend m (threads s') = pend m (threads s)"
      using Reacquire by (simp_all add: sem_defs)
    ultimately show ?thesis using assms(1) unfolding count_inv_def by simp
  next
    case (Exec a p)
    have here: "False \<notin> set (stores m (a # p))"
      using old [OF Exec(1)] Exec(3) by simp
    have tr: "trace s' = trace s @ map (Pair t) (events t a s)"
      using Exec(4) by (rule exec_trace)
    have w: "set (writes m (map (Pair t) (events t a s))) \<subseteq> set (stores m (a # p))"
      by (cases a) (auto simp: comp_def)
    have all: "False \<notin> set (stores m (prog (threads s' ! u)))" if "u < length (threads s')" for u
      using others [of u] stores_true_exec [OF Exec(4,1) here _ that] 
      by (cases "u = t \<or> length (threads s) \<le> u") auto
    have c1: "False \<notin> set (writes m (trace s'))"
      using assms(1) w here unfolding tr count_inv_def by auto
    have c2: "length (writes m (trace s')) + pend m (threads s') = n"
      using pending_exec [OF Exec(4,1,3,2), of m] assms(1) unfolding count_inv_def by simp
    have c3: "flag s' m \<longleftrightarrow> writes m (trace s') \<noteq> []"
      using flag_exec [OF Exec(4) here] assms(1) unfolding tr count_inv_def by simp
    show ?thesis
      unfolding count_inv_def using all c1 c2 c3 by blast
  qed
qed

lemma count_inv_start:
  "False \<notin> set (stores m p) \<Longrightarrow> count_inv m (length (stores m p)) (start p)"
  by (simp add: count_inv_def start_def)

lemma count_inv_run:
  "run sched (start p) = Some s \<Longrightarrow> False \<notin> set (stores m p) \<Longrightarrow>
   count_inv m (length (stores m p)) s"
  by (erule run_invariant [where P = "count_inv m (length (stores m p))"])
     (auto intro: count_inv_start count_inv_step)

lemma stores_display [simp]: "stores m (displayTextSlowly blob d @ q) = stores m q"
  by (induction blob) auto

lemma stores_display' [simp]: "stores m (displayTextSlowly blob d) = []"
  using stores_display [of m blob d "[]"] by simp

lemma stores_demos:
  "stores m (raceTest rock hamlet) = (if m = Race then [True] else [])"
  "stores m (monitorTest rock hamlet) = (if m = Print then [True] else [])"
  by (simp_all add: demo_defs)

section \<open>Notification after the assignment\<close>

lemma notify_after_store_mono:
  "notify_after_store m w p \<Longrightarrow> (w \<Longrightarrow> w') \<Longrightarrow> notify_after_store m w' p"
proof (induction m w p arbitrary: w' rule: notify_after_store.induct)
  case (2 m w m' b p)
  then show ?case by (cases "m' = m \<and> b") auto
qed auto

lemma wrote_append [simp]: "wrote m t (tr @ tr') = (wrote m t tr \<or> wrote m t tr')"
  by (auto simp: wrote_def)

lemma wrote_other: "u \<noteq> t \<Longrightarrow> wrote m u (map (Pair t) es) = False"
  by (auto simp: wrote_def)

lemma wrote_events:
  "wrote m t (map (Pair t) (events t a s)) = (a = Store m True)"
  by (cases a) (auto simp: wrote_def)

lemma notify_next_prog:
  assumes "notify_after_store m w (a # p)"
  shows "notify_after_store m (w \<or> a = Store m True) (next_prog a p s)"
proof (cases a)
  case (Store m' b)
  then show ?thesis using assms by (cases b; cases "m' = m") auto
qed (use assms in auto)

lemma notify_inv_step:
  assumes "notify_inv m s" and "step t s = Some s'"
  shows "notify_inv m s'"
proof -
  have old: "notify_after_store m (wrote m u (trace s)) (prog (threads s ! u))"
    if "u < length (threads s)" for u
    using assms(1) that unfolding notify_inv_def by blast
  have old_tr: "wrote m u xs" if "trace s = xs @ (u, Notified m) # ys" for xs u ys
    using assms(1) that unfolding notify_inv_def by blast
  show ?thesis
    using assms(2)
  proof (cases rule: step_cases)
    case (Wake m')
    have "notify_after_store m (wrote m u (trace s')) (prog (threads s' ! u))"
      if "u < length (threads s')" for u
      using old [of u] that Wake by (cases "u = t") (simp_all add: sem_defs)
    moreover have "trace s' = trace s" using Wake by (simp add: sem_defs)
    ultimately show ?thesis using old_tr unfolding notify_inv_def by auto
  next
    case (Reacquire m')
    have "notify_after_store m (wrote m u (trace s')) (prog (threads s' ! u))"
      if "u < length (threads s')" for u
      using old [of u] that Reacquire by (cases "u = t") (simp_all add: sem_defs)
    moreover have "trace s' = trace s" using Reacquire by (simp add: sem_defs)
    ultimately show ?thesis using old_tr unfolding notify_inv_def by auto
  next
    case (Exec a p)
    have here: "notify_after_store m (wrote m t (trace s)) (a # p)"
      using old [OF Exec(1)] Exec(3) by simp
    have tr: "trace s' = trace s @ map (Pair t) (events t a s)"
      using Exec(4) by (rule exec_trace)
    have progs: "notify_after_store m (wrote m u (trace s')) (prog (threads s' ! u))"
      if u: "u < length (threads s')" for u
    proof -
      consider "u = t" | "u \<noteq> t" "u < length (threads s)" | "length (threads s) \<le> u"
        by linarith
      then show ?thesis
      proof cases
        case 1
        then show ?thesis
          using notify_next_prog [OF here, of s] exec_prog [OF Exec(4,1)]
          by (simp add: tr wrote_events)
      next
        case 2
        then show ?thesis
          using old [of u] step_frame_prog [OF assms(2), of u]
          by (simp add: tr wrote_other)
      next
        case 3
        then obtain q where q: "a = Detach q" "threads s' ! u = \<lparr>prog = q, status = Running\<rparr>"
          using exec_new [OF Exec(4) _ u] by auto
        then have "notify_after_store m False q" using here by simp
        then show ?thesis using q notify_after_store_mono by fastforce
      qed
    qed
    have order: "wrote m u xs" if "trace s' = xs @ (u, Notified m) # ys" for xs u ys
      using that [unfolded tr]
    proof (cases rule: append_eq_split)
      case (old us)
      then show ?thesis using old_tr by blast
    next
      case (new us)
      then have "(u, Notified m) \<in> set (map (Pair t) (events t a s))" by simp
      then have "u = t" "a = NotifyAll m" by (cases a; auto)+
      then have "wrote m u (trace s)" using here by simp
      then show ?thesis using new by simp
    qed
    show ?thesis unfolding notify_inv_def using progs order by blast
  qed
qed

lemma notify_inv_start: "notify_after_store m False p \<Longrightarrow> notify_inv m (start p)"
  by (simp add: notify_inv_def start_def wrote_def)

lemma notify_inv_run:
  "run sched (start p) = Some s \<Longrightarrow> notify_after_store m False p \<Longrightarrow> notify_inv m s"
  by (erule run_invariant [where P = "notify_inv m"]) (auto intro: notify_inv_start notify_inv_step)

lemma notify_display [simp]:
  "notify_after_store m w (displayTextSlowly blob d @ q) = notify_after_store m w q"
  by (induction blob) auto

lemma notify_display' [simp]: "notify_after_store m w (displayTextSlowly blob d)"
  using notify_display [of m w blob d "[]"] by simp

lemma notify_demos:
  "notify_after_store m False (raceTest rock hamlet)"
  "notify_after_store m False (monitorTest rock hamlet)"
  by (simp_all add: demo_defs)

text \<open>
  C3. The claim: a flag is read and written only while its mutex is held, and the first
  thread of \<open>monitorTest\<close> sets the flag under the lock before it notifies. The code
  assigns to both flags with no lock taken: no statement of the two signalling threads takes
  a mutex. On the texts \<open>a\<close> and \<open>b\<close>:

  In \<open>monitorTest\<close>, let the orchestrating thread print its banner and create the first
  thread, and let the first thread run to its assignment: the last event is the write of
  \<open>True\<close> to \<open>finishedFirstText\<close> by thread 1, which does not hold \<open>printMutex\<close>. In
  \<open>raceTest\<close> likewise, the write of \<open>True\<close> to \<open>raceTestsFinished\<close> by thread 2 is made
  without \<open>raceMutex\<close>.

  The unlocked write races with the waiter. In \<open>monitorTest\<close>, let the second thread take
  the mutex and test the flag at the head of its loop and in \<^verbatim>\<open>cv.wait(lock, pred)\<close>,
  both times false; let the first thread then run to its end, assignment and
  \<^verbatim>\<open>notify_all\<close> included; now the second thread calls \<^verbatim>\<open>cv.wait(lock)\<close>. It is
  blocked with the flag true: the notification, the last event of the trace, came before it
  waited, and no thread has a \<^verbatim>\<open>notify_all\<close> left to execute, so that only a
  wakeup that no thread asked for lets it go on. In \<open>raceTest\<close> the same happens to the
  orchestrating thread, which keeps \<open>raceTest\<close> from returning.
\<close>

theorem flag_written_without_mutex:
  "map_option (last \<circ> trace) (run [0,0,1,1,1,1,1] (start (monitorTest ''a'' ''b'')))
     = Some (1, FlagWrite Print True False)
   \<and> map_option (last \<circ> trace) (run [0,0,0,2,2,2,2] (start (raceTest ''a'' ''b'')))
     = Some (2, FlagWrite Race True False)
   \<and> map_option (snapshot Print)
       (run [0,0,0,2,2,2,1,1,1,1,1,1,2] (start (monitorTest ''a'' ''b'')))
     = Some (True, [Running, Running, Blocked Print],
         [[SleepFor (monitorTest_wait ''a'' ''b''), Cout ''\<newline>''], [],
          WaitPred Print # WhileNotFlag Print # monitorTest_second_rest ''b''])
   \<and> map_option (last \<circ> trace)
       (run [0,0,0,2,2,2,1,1,1,1,1,1,2] (start (monitorTest ''a'' ''b'')))
     = Some (1, Notified Print)
   \<and> map_option (snapshot Race)
       (run [0,0,0,0,0,0,2,2,2,2,2,0] (start (raceTest ''a'' ''b'')))
     = Some (True, [Blocked Race, Running, Running],
         [WaitPred Race # WhileNotFlag Race # raceTest_rest, raceTest_first ''a'', []])
   \<and> map_option (last \<circ> trace)
       (run [0,0,0,0,0,0,2,2,2,2,2,0] (start (raceTest ''a'' ''b'')))
     = Some (2, Notified Race)"
  by code_simp

text \<open>
  In every run of \<open>raceTest\<close> and of \<open>monitorTest\<close>: every read of a flag is made by a
  thread that holds the paired mutex; every write of a flag writes \<open>True\<close> and is made by
  a thread that does not hold the paired mutex; and a thread that notifies the waiters of a
  monitor has written \<open>True\<close> to its flag before, without the mutex.
\<close>

lemma flag_accesses:
  assumes "run sched (start demo) = Some s"
    and "demo = raceTest rock hamlet \<or> demo = monitorTest rock hamlet"
  shows "((t, FlagRead m v k) \<in> set (trace s) \<longrightarrow> k)
       \<and> ((u, FlagWrite m w j) \<in> set (trace s) \<longrightarrow> w \<and> \<not> j)
       \<and> (trace s = xs @ (n, Notified m) # ys \<longrightarrow> (n, FlagWrite m True False) \<in> set xs)"
proof -
  have d: "discipline m False demo" "False \<notin> set (stores m demo)" "notify_after_store m False demo"
    using assms(2) discipline_demos stores_demos notify_demos by auto
  have li: "lock_inv m s" using lock_inv_run [OF assms(1) d(1)] .
  have ci: "count_inv m (length (stores m demo)) s" using count_inv_run [OF assms(1) d(2)] .
  have ni: "notify_inv m s" using notify_inv_run [OF assms(1) d(3)] .
  have acc: "access_ok m e" if "(i, e) \<in> set (trace s)" for i e
    using li that unfolding lock_inv_def by blast
  have rd: "k" if "(t, FlagRead m v k) \<in> set (trace s)" using acc [OF that] by simp
  have wr: "w \<and> \<not> j" if "(u, FlagWrite m w j) \<in> set (trace s)"
    using acc [OF that] write_in_writes [OF that] ci unfolding count_inv_def by (cases w) auto
  have nt: "(n, FlagWrite m True False) \<in> set xs" if tr: "trace s = xs @ (n, Notified m) # ys"
  proof -
    have "wrote m n xs" using ni tr unfolding notify_inv_def by blast
    moreover have "(n, FlagWrite m True True) \<notin> set xs"
      using acc [of n "FlagWrite m True True"] tr by auto
    ultimately show ?thesis by (simp add: wrote_def)
  qed
  show ?thesis using rd wr nt by blast
qed

section \<open>The threads of a demo\<close>









lemma residual_write:
  assumes "residual m body (threads s ! t)" and "prog (threads s ! t) = a # p"
    and "(u, FlagWrite m w j) \<in> set (map (Pair t) (events t a s))"
  shows "stores m body \<noteq> []"
proof -
  have "a = Store m w" using assms(3) by (cases a) auto
  then show ?thesis using assms(1,2) unfolding residual_def by auto
qed


lemma residual_no_write:
  assumes "step t s = Some s'" and "residual m body (threads s ! t)" and "stores m body = []"
    and "(u, FlagWrite m w j) \<in> set (trace s')"
  shows "(u, FlagWrite m w j) \<in> set (trace s)"
  using step_trace_writes [OF assms(1,4)] assms(2,3) unfolding residual_def by auto
















section \<open>The order of the output of monitorTest\<close>

subsection \<open>Structure of the programs\<close>

lemma main_kinds':
  assumes "monitorTest r h = pre @ a # p"
  shows "(((\<exists>str. a = Cout str) \<or> (\<exists>d. a = SleepFor d)) \<and> length pre \<noteq> 1 \<and> length pre \<noteq> 2)
       \<or> (a = Detach (monitorTest_first r) \<and> length pre = 1)
       \<or> (a = Detach (monitorTest_second h) \<and> length pre = 2)"
  using assms unfolding monitorTest_def
  by (auto simp: Cons_eq_append_conv)

lemma first_kinds:
  assumes "monitorTest_first r = pre @ a # p"
  shows "(\<exists>str. a = Cout str) \<or> (\<exists>c. a = Putchar c) \<or> (\<exists>d. a = SleepFor d)
       \<or> a = Store Print True \<or> a = NotifyAll Print"
proof -
  have "a \<in> set (monitorTest_first r)" using assms by simp
  then show ?thesis unfolding monitorTest_first_def using set_display by fastforce
qed

lemma rest_kinds:
  assumes "monitorTest_second_rest h = pre @ a # p"
  shows "(\<exists>str. a = Cout str) \<or> (\<exists>c. a = Putchar c) \<or> (\<exists>d. a = SleepFor d)
       \<or> a = Unlock Print"
proof -
  have "a \<in> set (monitorTest_second_rest h)" using assms by simp
  then show ?thesis unfolding monitorTest_second_rest_def using set_display by fastforce
qed

lemma stdout_of_first: "stdout_of (monitorTest_first r) = first_output r"
  by (simp add: monitorTest_first_def first_output_def)

lemma first_complete:
  assumes "monitorTest_first r = pre @ post" and "Store Print True \<in> set pre"
  shows "stdout_of pre = first_output r"
proof -
  define X where "X = Cout ''I Wanna Rock by Twisted Sister: \<newline>'' #
      displayTextSlowly r TEXT_DELAY @ [Putchar CHR ''\<newline>'']"
  have A: "monitorTest_first r = X @ [Store Print True, NotifyAll Print]"
    by (simp add: X_def monitorTest_first_def)
  have notin: "Store Print True \<notin> set X"
    using set_display [of "Store Print True" r TEXT_DELAY] by (auto simp: X_def)
  have out: "stdout_of X = first_output r" by (simp add: X_def first_output_def)
  from assms(1) A have "pre @ post = X @ [Store Print True, NotifyAll Print]" by simp
  then consider us where "pre = X @ us" "us @ post = [Store Print True, NotifyAll Print]"
    | us where "pre @ us = X" "post = us @ [Store Print True, NotifyAll Print]"
    by (auto simp: append_eq_append_conv2)
  then show ?thesis
  proof cases
    case 1
    then have "us = [] \<or> us = [Store Print True] \<or> us = [Store Print True, NotifyAll Print]"
      by (auto simp: append_eq_Cons_conv)
    then have "stdout_of us = []" by auto
    then show ?thesis using 1 out by simp
  next
    case 2
    then have "set pre \<subseteq> set X" by auto
    then show ?thesis using assms(2) notin by auto
  qed
qed

lemma first_prefix:
  assumes "monitorTest_first r = pre @ post"
  shows "length (stdout_of pre) \<le> length (first_output r)"
proof -
  have "first_output r = stdout_of pre @ stdout_of post"
    using assms stdout_of_first [of r] by simp
  then show ?thesis by simp
qed

subsection \<open>Ordering of a trace\<close>

lemma ordered_trace_other:
  assumes "ordered_trace full tr" and "\<And>c. (2, Stdout c) \<notin> set es"
  shows "ordered_trace full (tr @ es)"
  unfolding ordered_trace_def
proof (intro allI impI)
  fix xs c ys
  assume "tr @ es = xs @ (2, Stdout c) # ys"
  then show "stdout_by 1 xs = full"
  proof (cases rule: append_eq_split)
    case (old us)
    then show ?thesis using assms(1) unfolding ordered_trace_def by blast
  next
    case (new us)
    then show ?thesis using assms(2) by auto
  qed
qed

lemma ordered_trace_second:
  assumes "ordered_trace full tr" and "stdout_by 1 tr = full"
  shows "ordered_trace full (tr @ map (Pair 2) es)"
  unfolding ordered_trace_def
proof (intro allI impI)
  fix xs c ys
  assume "tr @ map (Pair 2) es = xs @ (2, Stdout c) # ys"
  then show "stdout_by 1 xs = full"
  proof (cases rule: append_eq_split)
    case (old us)
    then show ?thesis using assms(1) unfolding ordered_trace_def by blast
  next
    case (new us)
    then obtain es' where "us = map (Pair 2) es'" by (auto simp: map_eq_append_conv)
    then show ?thesis using new assms(2) by simp
  qed
qed

lemma observed_append [simp]: "observed m t (tr @ tr') = (observed m t tr \<or> observed m t tr')"
  by (auto simp: observed_def)

lemma observed_before_other:
  assumes "observed_before m t E tr" and "\<And>e. e \<in> E \<Longrightarrow> (t, e) \<notin> set es"
  shows "observed_before m t E (tr @ es)"
  unfolding observed_before_def
proof (intro allI impI)
  fix xs e ys
  assume "tr @ es = xs @ (t, e) # ys" and "e \<in> E"
  then show "observed m t xs"
  proof (cases rule: append_eq_split)
    case (old us)
    then show ?thesis using assms(1) \<open>e \<in> E\<close> unfolding observed_before_def by blast
  next
    case (new us)
    then show ?thesis using assms(2) \<open>e \<in> E\<close> by auto
  qed
qed

lemma observed_before_now:
  assumes "observed_before m t E tr" and "observed m t tr"
  shows "observed_before m t E (tr @ es)"
  unfolding observed_before_def
proof (intro allI impI)
  fix xs e ys
  assume "tr @ es = xs @ (t, e) # ys" and "e \<in> E"
  then show "observed m t xs"
  proof (cases rule: append_eq_split)
    case (old us)
    then show ?thesis using assms(1) \<open>e \<in> E\<close> unfolding observed_before_def by blast
  next
    case (new us)
    then show ?thesis using assms(2) by simp
  qed
qed

subsection \<open>The invariant\<close>

lemma main_ok_frame:
  assumes "main_ok r h s" and "length (threads s') = length (threads s)"
    and "prog (threads s' ! 0) = prog (threads s ! 0)"
  shows "main_ok r h s'"
  using assms unfolding main_ok_def by auto

lemma first_ok_frame:
  assumes "first_ok r s" and "1 < length (threads s') \<longleftrightarrow> 1 < length (threads s)"
    and "1 < length (threads s) \<Longrightarrow> prog (threads s' ! 1) = prog (threads s ! 1)"
    and "stdout_by 1 (trace s') = stdout_by 1 (trace s)"
    and "flag s' Print = flag s Print"
  shows "first_ok r s'"
  using assms unfolding first_ok_def by (cases "1 < length (threads s)") simp_all

lemma second_ok_frame:
  assumes "second_ok h s" and "2 < length (threads s') \<longleftrightarrow> 2 < length (threads s)"
    and "2 < length (threads s) \<Longrightarrow> prog (threads s' ! 2) = prog (threads s ! 2)"
    and "flag s Print \<Longrightarrow> flag s' Print"
    and "observed Print 2 (trace s) \<Longrightarrow> observed Print 2 (trace s')"
  shows "second_ok h s'"
  using assms unfolding second_ok_def by (cases "2 < length (threads s)") auto

lemma monitor_inv_status:
  assumes "monitor_inv r h s" and "t < length (threads s)"
    and "threads s' = (threads s)[t := (threads s ! t)\<lparr>status := st\<rparr>]"
    and "trace s' = trace s" and "flag s' = flag s"
  shows "monitor_inv r h s'"
proof -
  have p: "prog (threads s' ! u) = prog (threads s ! u)" if "u < length (threads s)" for u
    using assms(2,3) that by (cases "u = t") simp_all
  have l: "length (threads s') = length (threads s)" using assms(3) by simp
  have parts: "main_ok r h s" "first_ok r s" "second_ok h s"
    "ordered_trace (first_output r) (trace s)"
    "observed_before Print 2 (range Stdout) (trace s)"
    using assms(1) unfolding monitor_inv_def by simp_all
  have "threads s \<noteq> []" using parts(1) unfolding main_ok_def by blast
  then have "prog (threads s' ! 0) = prog (threads s ! 0)" using p [of 0] by blast
  then have "main_ok r h s'" by (rule main_ok_frame [OF parts(1) l])
  moreover have "first_ok r s'"
    by (rule first_ok_frame [OF parts(2)]) (simp_all add: l p assms(4,5))
  moreover have "second_ok h s'"
    by (rule second_ok_frame [OF parts(3)]) (simp_all add: l p assms(4,5))
  ultimately show ?thesis using parts(4,5) assms(4) unfolding monitor_inv_def by simp
qed

text \<open>
  A statement of the orchestrating thread.
\<close>

lemma monitor_inv_exec_main:
  assumes inv: "monitor_inv r h s" and st: "step 0 s = Some s'"
    and ex: "exec 0 a p s = Some s'" and pr: "prog (threads s ! 0) = a # p"
  shows "monitor_inv r h s'"
proof -
  have parts: "main_ok r h s" "first_ok r s" "second_ok h s"
    "ordered_trace (first_output r) (trace s)"
    "observed_before Print 2 (range Stdout) (trace s)"
    using inv unfolding monitor_inv_def by simp_all
  from parts(1) obtain pre where ne: "threads s \<noteq> []"
    and pre: "monitorTest r h = pre @ a # p"
    and len: "length (threads s) = Suc (min 2 (length pre - 1))"
    unfolding main_ok_def pr by blast
  have t0: "0 < length (threads s)" using ne by blast
  have kinds: "(((\<exists>str. a = Cout str) \<or> (\<exists>d. a = SleepFor d)) \<and> length pre \<noteq> 1 \<and> length pre \<noteq> 2)
       \<or> (a = Detach (monitorTest_first r) \<and> length pre = 1)
       \<or> (a = Detach (monitorTest_second h) \<and> length pre = 2)"
    using main_kinds' [OF pre] .
  have tr: "trace s' = trace s @ map (Pair 0) (events 0 a s)" using ex by (rule exec_trace)
  have np: "prog (threads s' ! 0) = p" using exec_prog [OF ex t0] kinds by auto
  have fl: "flag s' Print = flag s Print" using exec_flag [OF ex, of Print] kinds by auto
  have out: "stdout_by 1 (trace s') = stdout_by 1 (trace s)" unfolding tr by simp
  have fr: "prog (threads s' ! u) = prog (threads s ! u)" if "u \<noteq> 0" "u < length (threads s)" for u
    using step_frame_prog [OF st that] .
  have l': "length (threads s') = length (threads s) + (case a of Detach q \<Rightarrow> 1 | _ \<Rightarrow> 0)"
    using ex by (rule exec_length)
  have ord: "ordered_trace (first_output r) (trace s')"
    "observed_before Print 2 (range Stdout) (trace s')"
    unfolding tr by (rule ordered_trace_other [OF parts(4)], auto)
      (rule observed_before_other [OF parts(5)], auto)
  have obs: "observed Print 2 (trace s) \<Longrightarrow> observed Print 2 (trace s')"
    unfolding tr by simp
  have main: "main_ok r h s'"
    unfolding main_ok_def
  proof (intro conjI exI [of _ "pre @ [a]"])
    show "threads s' \<noteq> []" using l' t0 by auto
    show "monitorTest r h = (pre @ [a]) @ prog (threads s' ! 0)" using pre np by simp
    show "length (threads s') = Suc (min 2 (length (pre @ [a]) - 1))"
      using kinds l' len by auto
  qed
  consider (plain) "length (threads s') = length (threads s)"
    | (first) "a = Detach (monitorTest_first r)" "length (threads s) = 1"
    | (second) "a = Detach (monitorTest_second h)" "length (threads s) = 2"
    using kinds l' len by auto
  then show ?thesis
  proof cases
    case plain
    have "first_ok r s'"
      by (rule first_ok_frame [OF parts(2)]) (use plain fr [of 1] out fl in simp_all)
    moreover have "second_ok h s'"
      by (rule second_ok_frame [OF parts(3)]) (use plain fr [of 2] fl obs in simp_all)
    ultimately show ?thesis using main ord unfolding monitor_inv_def by simp
  next
    case first
    have new: "threads s' ! 1 = \<lparr>prog = monitorTest_first r, status = Running\<rparr>"
      using exec_new [OF ex, of 1] first l' by auto
    have old: "\<not> flag s Print" "stdout_by 1 (trace s) = []"
      using parts(2) first(2) unfolding first_ok_def by simp_all
    have "first_ok r s'"
      unfolding first_ok_def using new old fl out l' first by simp
    moreover have "second_ok h s'"
      unfolding second_ok_def using l' first by simp
    ultimately show ?thesis using main ord unfolding monitor_inv_def by simp
  next
    case second
    have new: "threads s' ! 2 = \<lparr>prog = monitorTest_second h, status = Running\<rparr>"
      using exec_new [OF ex, of 2] second l' by auto
    have "first_ok r s'"
      by (rule first_ok_frame [OF parts(2)]) (use second l' fr [of 1] out fl in simp_all)
    moreover have "second_ok h s'"
      unfolding second_ok_def using new by simp
    ultimately show ?thesis using main ord unfolding monitor_inv_def by simp
  qed
qed

text \<open>
  A statement of the first thread.
\<close>

lemma monitor_inv_exec_first:
  assumes inv: "monitor_inv r h s" and st: "step 1 s = Some s'" and t1: "1 < length (threads s)"
    and ex: "exec 1 a p s = Some s'" and pr: "prog (threads s ! 1) = a # p"
  shows "monitor_inv r h s'"
proof -
  have parts: "main_ok r h s" "first_ok r s" "second_ok h s"
    "ordered_trace (first_output r) (trace s)"
    "observed_before Print 2 (range Stdout) (trace s)"
    using inv unfolding monitor_inv_def by simp_all
  from parts(2) t1 obtain pre where pre: "monitorTest_first r = pre @ a # p"
    and out: "stdout_by 1 (trace s) = stdout_of pre"
    and fl: "flag s Print \<longrightarrow> Store Print True \<in> set pre"
    unfolding first_ok_def pr by auto
  have kinds: "(\<exists>str. a = Cout str) \<or> (\<exists>c. a = Putchar c) \<or> (\<exists>d. a = SleepFor d)
       \<or> a = Store Print True \<or> a = NotifyAll Print"
    using first_kinds [OF pre] .
  have tr: "trace s' = trace s @ map (Pair 1) (events 1 a s)" using ex by (rule exec_trace)
  have np: "prog (threads s' ! 1) = p" using exec_prog [OF ex t1] kinds by auto
  have fl': "flag s' Print = (flag s Print \<or> a = Store Print True)"
    using exec_flag [OF ex, of Print] kinds by auto
  have fr: "prog (threads s' ! u) = prog (threads s ! u)" if "u \<noteq> 1" "u < length (threads s)" for u
    using step_frame_prog [OF st that] .
  have l': "length (threads s') = length (threads s)"
    using exec_length [OF ex] kinds by auto
  have ord: "ordered_trace (first_output r) (trace s')"
    "observed_before Print 2 (range Stdout) (trace s')"
    unfolding tr by (rule ordered_trace_other [OF parts(4)], auto)
      (rule observed_before_other [OF parts(5)], auto)
  have obs: "observed Print 2 (trace s) \<Longrightarrow> observed Print 2 (trace s')"
    unfolding tr by simp
  have "prog (threads s' ! 0) = prog (threads s ! 0)" using fr [of 0] t1 by (cases "threads s") auto
  then have main: "main_ok r h s'" by (rule main_ok_frame [OF parts(1) l'])
  have first: "first_ok r s'"
    unfolding first_ok_def
  proof (simp only: l' t1 if_True, intro exI [of _ "pre @ [a]"] conjI)
    show "monitorTest_first r = (pre @ [a]) @ prog (threads s' ! 1)" using pre np by simp
    show "stdout_by 1 (trace s') = stdout_of (pre @ [a])" unfolding tr using out by simp
    show "flag s' Print \<longrightarrow> Store Print True \<in> set (pre @ [a])" using fl fl' by auto
  qed
  have second: "second_ok h s'"
    by (rule second_ok_frame [OF parts(3)]) (use l' fr [of 2] fl' obs in simp_all)
  show ?thesis using main first second ord unfolding monitor_inv_def by simp
qed

text \<open>
  A statement of the second thread.
\<close>

lemma monitor_inv_exec_second:
  assumes inv: "monitor_inv r h s" and st: "step 2 s = Some s'" and t2: "2 < length (threads s)"
    and ex: "exec 2 a p s = Some s'" and pr: "prog (threads s ! 2) = a # p"
  shows "monitor_inv r h s'"
proof -
  have parts: "main_ok r h s" "first_ok r s" "second_ok h s"
    "ordered_trace (first_output r) (trace s)"
    "observed_before Print 2 (range Stdout) (trace s)"
    using inv unfolding monitor_inv_def by simp_all
  have tr: "trace s' = trace s @ map (Pair 2) (events 2 a s)" using ex by (rule exec_trace)
  have np: "prog (threads s' ! 2) = next_prog a p s" using exec_prog [OF ex t2] .
  have fr: "prog (threads s' ! u) = prog (threads s ! u)" if "u \<noteq> 2" "u < length (threads s)" for u
    using step_frame_prog [OF st that] .
  have out: "stdout_by 1 (trace s') = stdout_by 1 (trace s)" unfolding tr by simp
  have phase: "a # p = monitorTest_second h
        \<or> in_wait_loop Print (monitorTest_second_rest h) (a # p)
        \<or> (flag s Print \<and> observed Print 2 (trace s)
            \<and> (\<exists>pre. monitorTest_second_rest h = pre @ a # p))"
    using parts(3) t2 unfolding second_ok_def pr by simp
  have no_spawn: "\<not> (\<exists>q. a = Detach q)" and no_store: "\<not> (\<exists>m b. a = Store m b)"
    using phase rest_kinds [of h _ a p]
    by (auto simp: monitorTest_second_def in_wait_loop_def)
  have l': "length (threads s') = length (threads s)"
    using exec_length [OF ex] no_spawn by (cases a) auto
  have fl': "flag s' Print = flag s Print"
    using exec_flag [OF ex, of Print] no_store by (cases a) auto
  have "prog (threads s' ! 0) = prog (threads s ! 0)" using fr [of 0] t2 by (cases "threads s") auto
  then have main: "main_ok r h s'" by (rule main_ok_frame [OF parts(1) l'])
  have first: "first_ok r s'"
    by (rule first_ok_frame [OF parts(2)]) (use l' fr [of 1] out fl' t2 in simp_all)
  have complete: "stdout_by 1 (trace s) = first_output r" if "flag s Print"
  proof -
    from parts(2) t2 that obtain pre where "monitorTest_first r = pre @ prog (threads s ! 1)"
      "stdout_by 1 (trace s) = stdout_of pre" "Store Print True \<in> set pre"
      unfolding first_ok_def by auto
    then show ?thesis using first_complete by simp
  qed
  from phase consider
      (lock) "a = Lock Print" "p = WhileNotFlag Print # monitorTest_second_rest h"
    | (loop) "in_wait_loop Print (monitorTest_second_rest h) (a # p)"
    | (printing) pre where "flag s Print" "monitorTest_second_rest h = pre @ a # p"
        "observed Print 2 (trace s)"
    by (auto simp: monitorTest_second_def monitorTest_second_rest_def)
  then show ?thesis
  proof cases
    case lock
    have "second_ok h s'"
      unfolding second_ok_def using np lock by (simp add: in_wait_loop_def)
    moreover have "ordered_trace (first_output r) (trace s')"
      "observed_before Print 2 (range Stdout) (trace s')"
      unfolding tr using lock parts(4,5) by simp_all
    ultimately show ?thesis using main first unfolding monitor_inv_def by simp
  next
    case loop
    from loop consider
        (head) "a = WhileNotFlag Print" "p = monitorTest_second_rest h"
      | (pred) "a = WaitPred Print" "p = WhileNotFlag Print # monitorTest_second_rest h"
      | (block) "a = Wait Print"
          "p = WaitPred Print # WhileNotFlag Print # monitorTest_second_rest h"
      unfolding in_wait_loop_def by auto
    then have "in_wait_loop Print (monitorTest_second_rest h) (prog (threads s' ! 2))
        \<or> (flag s' Print \<and> observed Print 2 (trace s')
            \<and> monitorTest_second_rest h = [] @ prog (threads s' ! 2))"
    proof cases
      case head
      show ?thesis
      proof (cases "flag s Print")
        case True
        then show ?thesis using head np fl' by (simp add: tr observed_def)
      next
        case False
        then show ?thesis using head np by (simp add: in_wait_loop_def)
      qed
    next
      case pred
      then show ?thesis using np by (simp add: in_wait_loop_def)
    next
      case block
      then show ?thesis using np by (simp add: in_wait_loop_def)
    qed
    then have "second_ok h s'"
      unfolding second_ok_def by blast
    moreover have "ordered_trace (first_output r) (trace s')"
      unfolding tr by (rule ordered_trace_other [OF parts(4)])
        (use loop in \<open>auto simp: in_wait_loop_def\<close>)
    moreover have "observed_before Print 2 (range Stdout) (trace s')"
      unfolding tr by (rule observed_before_other [OF parts(5)])
        (use loop in \<open>auto simp: in_wait_loop_def\<close>)
    ultimately show ?thesis using main first unfolding monitor_inv_def by simp
  next
    case printing
    have kinds: "(\<exists>str. a = Cout str) \<or> (\<exists>c. a = Putchar c) \<or> (\<exists>d. a = SleepFor d)
       \<or> a = Unlock Print"
      using rest_kinds [OF printing(2)] .
    then have "next_prog a p s = p" by auto
    then have "monitorTest_second_rest h = (pre @ [a]) @ prog (threads s' ! 2)"
      using np printing(2) by simp
    moreover have "observed Print 2 (trace s')" unfolding tr using printing(3) by simp
    ultimately have "second_ok h s'"
      unfolding second_ok_def using printing(1) fl' by blast
    moreover have "ordered_trace (first_output r) (trace s')"
      unfolding tr by (rule ordered_trace_second [OF parts(4) complete [OF printing(1)]])
    moreover have "observed_before Print 2 (range Stdout) (trace s')"
      unfolding tr by (rule observed_before_now [OF parts(5) printing(3)])
    ultimately show ?thesis using main first unfolding monitor_inv_def by simp
  qed
qed

lemma monitor_inv_threads: "monitor_inv r h s \<Longrightarrow> length (threads s) \<le> 3"
  unfolding monitor_inv_def main_ok_def by auto

lemma monitor_inv_step:
  assumes "monitor_inv r h s" and "step t s = Some s'"
  shows "monitor_inv r h s'"
  using assms(2)
proof (cases rule: step_cases)
  case (Wake m)
  then show ?thesis using monitor_inv_status [OF assms(1)] by (simp add: sem_defs)
next
  case (Reacquire m)
  then show ?thesis using monitor_inv_status [OF assms(1)] by (simp add: sem_defs)
next
  case (Exec a p)
  have "t = 0 \<or> t = 1 \<or> t = 2" using Exec(1) monitor_inv_threads [OF assms(1)] by auto
  then show ?thesis
    using monitor_inv_exec_main [OF assms(1)] monitor_inv_exec_first [OF assms(1)]
      monitor_inv_exec_second [OF assms(1)] Exec assms(2) by auto
qed

lemma monitor_inv_start: "monitor_inv r h (start (monitorTest r h))"
  unfolding monitor_inv_def main_ok_def first_ok_def second_ok_def ordered_trace_def
    observed_before_def
  by (simp add: start_def)

lemma monitor_inv_run:
  "run sched (start (monitorTest r h)) = Some s \<Longrightarrow> monitor_inv r h s"
  by (erule run_invariant [where P = "monitor_inv r h"])
     (auto intro: monitor_inv_start monitor_inv_step)

text \<open>
  C1. In every run of \<open>monitorTest\<close>, whatever the schedule: at any character that the
  second thread (thread 2) writes to standard output, the first thread (thread 1) has
  already written its whole output, its banner, the full first text and its final newline,
  and it writes nothing afterwards. Statements are atomic and memory is sequentially
  consistent in this model.
\<close>

theorem first_output_before_second:
  assumes "run sched (start (monitorTest rock_text hamlet_text)) = Some s"
    and "trace s = xs @ (2, Stdout c) # ys"
  shows "stdout_by 1 xs = ''I Wanna Rock by Twisted Sister: \<newline>'' @ rock_text @ ''\<newline>''
       \<and> stdout_by 1 ys = []"
proof -
  have inv: "monitor_inv rock_text hamlet_text s" using assms(1) by (rule monitor_inv_run)
  then have "stdout_by 1 xs = first_output rock_text"
    using assms(2) unfolding monitor_inv_def ordered_trace_def by blast
  moreover have "length (stdout_by 1 (trace s)) \<le> length (first_output rock_text)"
  proof (cases "1 < length (threads s)")
    case True
    then obtain pre where "monitorTest_first rock_text = pre @ prog (threads s ! 1)"
      "stdout_by 1 (trace s) = stdout_of pre"
      using inv unfolding monitor_inv_def first_ok_def by auto
    then show ?thesis using first_prefix by simp
  next
    case False
    then show ?thesis using inv unfolding monitor_inv_def first_ok_def by simp
  qed
  ultimately show ?thesis using assms(2) by (simp add: first_output_def)
qed

theorem first_output_before_second_witness:
  "map_option trace (run [0,0,0,1,1,1,1,1,1,2,2,2] (start (monitorTest ''a'' ''b'')))
     = Some ((map (Pair 0 \<circ> Stdout) ''Displaying texts in correct order with a monitor: \<newline>''
      @ map (Pair 1 \<circ> Stdout) ''I Wanna Rock by Twisted Sister: \<newline>''
      @ [(1, Stdout CHR ''a''), (1, Slept 3), (1, Stdout CHR ''\<newline>''),
         (1, FlagWrite Print True False), (1, Notified Print), (2, FlagRead Print True True)])
      @ (2, Stdout CHR ''H'') # map (Pair 2 \<circ> Stdout) ''amlet Act III Scene I: \<newline>'')
   \<and> stdout_by 1 (map (Pair 0 \<circ> Stdout) ''Displaying texts in correct order with a monitor: \<newline>''
      @ map (Pair 1 \<circ> Stdout) ''I Wanna Rock by Twisted Sister: \<newline>''
      @ [(1, Stdout CHR ''a''), (1, Slept 3), (1, Stdout CHR ''\<newline>''),
         (1, FlagWrite Print True False), (1, Notified Print), (2, FlagRead Print True True)])
     = ''I Wanna Rock by Twisted Sister: \<newline>a\<newline>''
   \<and> stdout_by 1 (map (Pair 2 \<circ> Stdout) ''amlet Act III Scene I: \<newline>'') = []"
proof -
  have ev: "map_option trace (run [0,0,0,1,1,1,1,1,1,2,2,2] (start (monitorTest ''a'' ''b'')))
     = Some ((map (Pair 0 \<circ> Stdout) ''Displaying texts in correct order with a monitor: \<newline>''
      @ map (Pair 1 \<circ> Stdout) ''I Wanna Rock by Twisted Sister: \<newline>''
      @ [(1, Stdout CHR ''a''), (1, Slept 3), (1, Stdout CHR ''\<newline>''),
         (1, FlagWrite Print True False), (1, Notified Print), (2, FlagRead Print True True)])
      @ (2, Stdout CHR ''H'') # map (Pair 2 \<circ> Stdout) ''amlet Act III Scene I: \<newline>'')"
    by code_simp
  then obtain s where s: "run [0,0,0,1,1,1,1,1,1,2,2,2] (start (monitorTest ''a'' ''b'')) = Some s"
    "trace s = (map (Pair 0 \<circ> Stdout) ''Displaying texts in correct order with a monitor: \<newline>''
      @ map (Pair 1 \<circ> Stdout) ''I Wanna Rock by Twisted Sister: \<newline>''
      @ [(1, Stdout CHR ''a''), (1, Slept 3), (1, Stdout CHR ''\<newline>''),
         (1, FlagWrite Print True False), (1, Notified Print), (2, FlagRead Print True True)])
      @ (2, Stdout CHR ''H'') # map (Pair 2 \<circ> Stdout) ''amlet Act III Scene I: \<newline>''"
    by blast
  show ?thesis using first_output_before_second [OF s] ev by simp
qed

section \<open>The wait loops\<close>

lemma not_in_wait_loop_self: "\<not> in_wait_loop m p p"
proof -
  have "length p \<noteq> length (WhileNotFlag m # p)"
    "length p \<noteq> length (WaitPred m # WhileNotFlag m # p)"
    "length p \<noteq> length (Wait m # WaitPred m # WhileNotFlag m # p)" by simp_all
  then show ?thesis unfolding in_wait_loop_def by metis
qed

lemma wait_loop_step:
  assumes "step t s = Some s'" and "in_wait_loop m p (prog (threads s ! t))"
  shows "in_wait_loop m p (prog (threads s' ! t))
         \<or> (prog (threads s' ! t) = p \<and> flag s m
             \<and> trace s' = trace s @ [(t, FlagRead m True (owner s m = Some t))])"
  using assms(1)
proof (cases rule: step_cases)
  case (Wake m')
  then show ?thesis using assms(2) by (simp add: sem_defs)
next
  case (Reacquire m')
  then show ?thesis using assms(2) by (simp add: sem_defs)
next
  case (Exec a p')
  then show ?thesis using assms(2)
    by (auto simp: in_wait_loop_def sem_defs split: if_splits)
qed

lemma race_kinds:
  assumes "raceTest r h = pre @ a # p" and "length pre \<le> 3"
  shows "((\<exists>str. a = Cout str) \<or> (\<exists>q. a = Detach q) \<or> a = Lock Race)
       \<and> (length pre = 3 \<longrightarrow> p = WhileNotFlag Race # raceTest_rest)"
  using assms unfolding raceTest_def raceTest_rest_def
  by (auto simp: Cons_eq_append_conv)

lemma race_rest_kinds:
  assumes "raceTest_rest = pre @ a # p"
  shows "(\<exists>str. a = Cout str) \<or> (\<exists>d. a = SleepFor d) \<or> a = Unlock Race"
  using assms unfolding raceTest_rest_def
  by (auto simp: Cons_eq_append_conv)

lemma race_inv_status:
  assumes "race_inv r h s" and "t < length (threads s)"
    and "threads s' = (threads s)[t := (threads s ! t)\<lparr>status := st\<rparr>]"
    and "trace s' = trace s"
  shows "race_inv r h s'"
proof -
  have "threads s \<noteq> []" using assms(1) unfolding race_inv_def by blast
  then have "prog (threads s' ! 0) = prog (threads s ! 0)" "threads s' \<noteq> []"
    using assms(2,3) by (cases "t = 0"; simp)+
  then show ?thesis using assms(1,4) unfolding race_inv_def by simp
qed

lemma race_inv_exec_other:
  assumes inv: "race_inv r h s" and st: "step t s = Some s'" and t: "t \<noteq> 0"
    and ex: "exec t a p s = Some s'"
  shows "race_inv r h s'"
proof -
  have ne: "threads s \<noteq> []" using inv unfolding race_inv_def by blast
  have tr: "trace s' = trace s @ map (Pair t) (events t a s)" using ex by (rule exec_trace)
  have "prog (threads s' ! 0) = prog (threads s ! 0)"
    using step_frame_prog [OF st, of 0] t ne by auto
  moreover have "threads s' \<noteq> []" using step_length [OF st] ne by auto
  moreover have "observed_before Race 0 {Slept MAIN_WAIT} (trace s')"
    unfolding tr by (rule observed_before_other) (use inv t in \<open>auto simp: race_inv_def\<close>)
  moreover have "observed Race 0 (trace s) \<Longrightarrow> observed Race 0 (trace s')"
    unfolding tr by simp
  ultimately show ?thesis using inv unfolding race_inv_def by auto
qed

lemma race_inv_exec_main:
  assumes inv: "race_inv r h s" and ex: "exec 0 a p s = Some s'"
    and pr: "prog (threads s ! 0) = a # p"
  shows "race_inv r h s'"
proof -
  have ne: "threads s \<noteq> []" and ob: "observed_before Race 0 {Slept MAIN_WAIT} (trace s)"
    using inv unfolding race_inv_def by blast+
  have t0: "0 < length (threads s)" using ne by blast
  have tr: "trace s' = trace s @ map (Pair 0) (events 0 a s)" using ex by (rule exec_trace)
  have np: "prog (threads s' ! 0) = next_prog a p s" using exec_prog [OF ex t0] .
  have ne': "threads s' \<noteq> []" using exec_length [OF ex] t0 by auto
  from inv consider
      (before) pre where "raceTest r h = pre @ a # p" "length pre \<le> 3"
    | (loop) "in_wait_loop Race raceTest_rest (a # p)"
    | (after) pre where "observed Race 0 (trace s)" "raceTest_rest = pre @ a # p"
    unfolding race_inv_def pr by blast
  then show ?thesis
  proof cases
    case before
    have kinds: "(\<exists>str. a = Cout str) \<or> (\<exists>q. a = Detach q) \<or> a = Lock Race"
      and last: "length pre = 3 \<Longrightarrow> p = WhileNotFlag Race # raceTest_rest"
      using race_kinds [OF before] by blast+
    have p': "prog (threads s' ! 0) = p" using np kinds by auto
    have "(\<exists>pre. raceTest r h = pre @ prog (threads s' ! 0) \<and> length pre \<le> 3)
         \<or> in_wait_loop Race raceTest_rest (prog (threads s' ! 0))"
    proof (cases "length pre = 3")
      case True
      then show ?thesis using last p' by (simp add: in_wait_loop_def)
    next
      case False
      then have "raceTest r h = (pre @ [a]) @ prog (threads s' ! 0) \<and> length (pre @ [a]) \<le> 3"
        using before p' by simp
      then show ?thesis by blast
    qed
    moreover have "observed_before Race 0 {Slept MAIN_WAIT} (trace s')"
      unfolding tr by (rule observed_before_other [OF ob]) (use kinds in auto)
    ultimately show ?thesis using ne' unfolding race_inv_def by blast
  next
    case loop
    from loop consider
        (head) "a = WhileNotFlag Race" "p = raceTest_rest"
      | (pred) "a = WaitPred Race" "p = WhileNotFlag Race # raceTest_rest"
      | (block) "a = Wait Race" "p = WaitPred Race # WhileNotFlag Race # raceTest_rest"
      unfolding in_wait_loop_def by auto
    then have "in_wait_loop Race raceTest_rest (prog (threads s' ! 0))
        \<or> (observed Race 0 (trace s') \<and> raceTest_rest = [] @ prog (threads s' ! 0))"
    proof cases
      case head
      show ?thesis
      proof (cases "flag s Race")
        case True
        then show ?thesis using head np by (simp add: tr observed_def)
      next
        case False
        then show ?thesis using head np by (simp add: in_wait_loop_def)
      qed
    next
      case pred
      then show ?thesis using np by (simp add: in_wait_loop_def)
    next
      case block
      then show ?thesis using np by (simp add: in_wait_loop_def)
    qed
    moreover have "observed_before Race 0 {Slept MAIN_WAIT} (trace s')"
      unfolding tr by (rule observed_before_other [OF ob])
        (use loop in \<open>auto simp: in_wait_loop_def\<close>)
    ultimately show ?thesis using ne' unfolding race_inv_def by blast
  next
    case after
    have "next_prog a p s = p" using race_rest_kinds [OF after(2)] by auto
    then have "raceTest_rest = (pre @ [a]) @ prog (threads s' ! 0)" using np after(2) by simp
    moreover have "observed Race 0 (trace s')" unfolding tr using after(1) by simp
    moreover have "observed_before Race 0 {Slept MAIN_WAIT} (trace s')"
      unfolding tr by (rule observed_before_now [OF ob after(1)])
    ultimately show ?thesis using ne' unfolding race_inv_def by blast
  qed
qed

lemma race_inv_step:
  assumes "race_inv r h s" and "step t s = Some s'"
  shows "race_inv r h s'"
  using assms(2)
proof (cases rule: step_cases)
  case (Wake m)
  then show ?thesis using race_inv_status [OF assms(1)] by (simp add: sem_defs)
next
  case (Reacquire m)
  then show ?thesis using race_inv_status [OF assms(1)] by (simp add: sem_defs)
next
  case (Exec a p)
  then show ?thesis
    using race_inv_exec_main [OF assms(1)] race_inv_exec_other [OF assms(1,2)]
    by (cases "t = 0") auto
qed

lemma race_inv_start: "race_inv r h (start (raceTest r h))"
  unfolding race_inv_def observed_before_def
  by (auto simp: start_def intro: exI [of _ "[]"])

lemma race_inv_run:
  "run sched (start (raceTest r h)) = Some s \<Longrightarrow> race_inv r h s"
  by (erule run_invariant [where P = "race_inv r h"])
     (auto intro: race_inv_start race_inv_step)

lemma reads_locked:
  assumes "run sched (start demo) = Some s"
    and "demo = raceTest rock hamlet \<or> demo = monitorTest rock hamlet"
    and "observed m t xs" and "set xs \<subseteq> set (trace s)"
  shows "(t, FlagRead m True True) \<in> set xs"
proof -
  have "discipline m False demo" using assms(2) discipline_demos by auto
  then have "lock_inv m s" using lock_inv_run [OF assms(1)] by simp
  then have "access_ok m (FlagRead m True False)" if "(t, FlagRead m True False) \<in> set xs"
    using that assms(4) unfolding lock_inv_def by blast
  then show ?thesis using assms(3) unfolding observed_def by auto
qed

text \<open>
  C2. A thread inside \<^verbatim>\<open>while (!flag) { cv.wait(lock, pred); }\<close> that takes a step while
  the flag is false, a wakeup included, is still inside the loop afterwards. And both
  waiters are past their loop only after reading the flag as true, holding the mutex: in
  every run of \<open>raceTest\<close> the sleep of \<open>MAIN_WAIT\<close> of the orchestrating thread (its first
  statement after the loop) comes after such a read by that thread, and in every run of
  \<open>monitorTest\<close> every character the second thread writes comes after such a read by
  that thread.
\<close>

theorem waiters_proceed_on_flag:
  "(step t s = Some s' \<longrightarrow> in_wait_loop m p (prog (threads s ! t)) \<longrightarrow> \<not> flag s m \<longrightarrow>
      in_wait_loop m p (prog (threads s' ! t)))
   \<and> (run sched (start (raceTest rock hamlet)) = Some sr \<longrightarrow>
        trace sr = xr @ (0, Slept MAIN_WAIT) # yr \<longrightarrow> (0, FlagRead Race True True) \<in> set xr)
   \<and> (run sched (start (monitorTest rock hamlet)) = Some sm \<longrightarrow>
        trace sm = xm @ (2, Stdout c) # ym \<longrightarrow> (2, FlagRead Print True True) \<in> set xm)"
proof (intro conjI impI)
  assume "step t s = Some s'" "in_wait_loop m p (prog (threads s ! t))" "\<not> flag s m"
  then show "in_wait_loop m p (prog (threads s' ! t))" using wait_loop_step by blast
next
  assume r: "run sched (start (raceTest rock hamlet)) = Some sr"
    and tr: "trace sr = xr @ (0, Slept MAIN_WAIT) # yr"
  have "observed Race 0 xr"
    using race_inv_run [OF r] tr unfolding race_inv_def observed_before_def by blast
  then show "(0, FlagRead Race True True) \<in> set xr"
    using reads_locked [OF r, of rock hamlet Race 0 xr] tr by auto
next
  assume r: "run sched (start (monitorTest rock hamlet)) = Some sm"
    and tr: "trace sm = xm @ (2, Stdout c) # ym"
  have "observed Print 2 xm"
    using monitor_inv_run [OF r] tr unfolding monitor_inv_def observed_before_def by blast
  then show "(2, FlagRead Print True True) \<in> set xm"
    using reads_locked [OF r, of rock hamlet Print 2 xm] tr by auto
qed

theorem waiters_proceed_on_flag_witness:
  "map_option (in_wait_loop Print (monitorTest_second_rest ''b'') \<circ> prog_of 2)
      (run [0,0,0,2,2,2,2,2,2,2] (start (monitorTest ''a'' ''b''))) = Some True
   \<and> map_option trace (run [0,0,0,1,1,1,2,2,2,2,2,0,0,0] (start (raceTest ''a'' ''b'')))
     = Some ((map (Pair 0 \<circ> Stdout) ''Displaying texts with race conditions: \<newline>''
         @ map (Pair 1 \<circ> Stdout) ''I Wanna Rock by Twisted Sister: \<newline>''
         @ [(1, Stdout CHR ''a''), (1, Slept 3)]
         @ map (Pair 2 \<circ> Stdout) ''Hamlet Act III Scene I: \<newline>''
         @ [(2, Stdout CHR ''b''), (2, Slept 3), (2, FlagWrite Race True False),
            (2, Notified Race), (0, FlagRead Race True True)])
        @ (0, Slept MAIN_WAIT) # [])
   \<and> (0, FlagRead Race True True) \<in> set (map (Pair 0 \<circ> Stdout) ''Displaying texts with race conditions: \<newline>''
         @ map (Pair 1 \<circ> Stdout) ''I Wanna Rock by Twisted Sister: \<newline>''
         @ [(1, Stdout CHR ''a''), (1, Slept 3)]
         @ map (Pair 2 \<circ> Stdout) ''Hamlet Act III Scene I: \<newline>''
         @ [(2, Stdout CHR ''b''), (2, Slept 3), (2, FlagWrite Race True False),
            (2, Notified Race), (0, FlagRead Race True True)])
   \<and> map_option trace (run [0,0,0,1,1,1,1,1,1,2,2,2] (start (monitorTest ''a'' ''b'')))
     = Some ((map (Pair 0 \<circ> Stdout) ''Displaying texts in correct order with a monitor: \<newline>''
      @ map (Pair 1 \<circ> Stdout) ''I Wanna Rock by Twisted Sister: \<newline>''
      @ [(1, Stdout CHR ''a''), (1, Slept 3), (1, Stdout CHR ''\<newline>''),
         (1, FlagWrite Print True False), (1, Notified Print), (2, FlagRead Print True True)])
      @ (2, Stdout CHR ''H'') # map (Pair 2 \<circ> Stdout) ''amlet Act III Scene I: \<newline>'')
   \<and> (2, FlagRead Print True True) \<in> set (map (Pair 0 \<circ> Stdout) ''Displaying texts in correct order with a monitor: \<newline>''
      @ map (Pair 1 \<circ> Stdout) ''I Wanna Rock by Twisted Sister: \<newline>''
      @ [(1, Stdout CHR ''a''), (1, Slept 3), (1, Stdout CHR ''\<newline>''),
         (1, FlagWrite Print True False), (1, Notified Print), (2, FlagRead Print True True)])"
proof -
  have "map_option (in_wait_loop Print (monitorTest_second_rest ''b'') \<circ> prog_of 2)
      (run [0,0,0,2,2,2,2,2,2] (start (monitorTest ''a'' ''b''))) = Some True"
    and "map_option (flag_of Print)
      (run [0,0,0,2,2,2,2,2,2] (start (monitorTest ''a'' ''b''))) = Some False"
    and "map_option (prog_of 2)
      (run ([0,0,0,2,2,2,2,2,2] @ [2]) (start (monitorTest ''a'' ''b'')))
      = Some (Wait Print # WaitPred Print # WhileNotFlag Print # monitorTest_second_rest ''b'')"
    by code_simp+
  then obtain s s' where s: "run [0,0,0,2,2,2,2,2,2] (start (monitorTest ''a'' ''b'')) = Some s"
    "in_wait_loop Print (monitorTest_second_rest ''b'') (prog (threads s ! 2))" "\<not> flag s Print"
    and s': "step 2 s = Some s'"
    by (auto simp: run_snoc prog_of_def flag_of_def split: option.splits)
  have run': "run [0,0,0,2,2,2,2,2,2,2] (start (monitorTest ''a'' ''b'')) = Some s'"
    using s(1) s' run_snoc [of "[0,0,0,2,2,2,2,2,2]" 2] by simp
  have w1: "in_wait_loop Print (monitorTest_second_rest ''b'') (prog (threads s' ! 2))"
    using waiters_proceed_on_flag [of 2 s s' Print "monitorTest_second_rest ''b''"] s s'
    by blast
  define xr :: trace where "xr = (map (Pair 0 \<circ> Stdout) ''Displaying texts with race conditions: \<newline>''
         @ map (Pair 1 \<circ> Stdout) ''I Wanna Rock by Twisted Sister: \<newline>''
         @ [(1, Stdout CHR ''a''), (1, Slept 3)]
         @ map (Pair 2 \<circ> Stdout) ''Hamlet Act III Scene I: \<newline>''
         @ [(2, Stdout CHR ''b''), (2, Slept 3), (2, FlagWrite Race True False),
            (2, Notified Race), (0, FlagRead Race True True)])"
  have er: "map_option trace (run [0,0,0,1,1,1,2,2,2,2,2,0,0,0] (start (raceTest ''a'' ''b'')))
     = Some (xr @ (0, Slept MAIN_WAIT) # [])"
    unfolding xr_def by code_simp
  then obtain sr where sr: "run [0,0,0,1,1,1,2,2,2,2,2,0,0,0] (start (raceTest ''a'' ''b'')) = Some sr"
    "trace sr = xr @ (0, Slept MAIN_WAIT) # []"
    by blast
  have w2: "(0, FlagRead Race True True) \<in> set xr"
    using waiters_proceed_on_flag [where sched = "[0,0,0,1,1,1,2,2,2,2,2,0,0,0]"
        and rock = "''a''" and hamlet = "''b''" and sr = sr and xr = xr and yr = "[]"] sr
    by blast
  define xm :: trace where "xm = (map (Pair 0 \<circ> Stdout) ''Displaying texts in correct order with a monitor: \<newline>''
      @ map (Pair 1 \<circ> Stdout) ''I Wanna Rock by Twisted Sister: \<newline>''
      @ [(1, Stdout CHR ''a''), (1, Slept 3), (1, Stdout CHR ''\<newline>''),
         (1, FlagWrite Print True False), (1, Notified Print), (2, FlagRead Print True True)])"
  have em: "map_option trace (run [0,0,0,1,1,1,1,1,1,2,2,2] (start (monitorTest ''a'' ''b'')))
     = Some (xm @ (2, Stdout CHR ''H'') # map (Pair 2 \<circ> Stdout) ''amlet Act III Scene I: \<newline>'')"
    unfolding xm_def by code_simp
  then obtain sm where sm: "run [0,0,0,1,1,1,1,1,1,2,2,2] (start (monitorTest ''a'' ''b'')) = Some sm"
    "trace sm = xm @ (2, Stdout CHR ''H'') # map (Pair 2 \<circ> Stdout) ''amlet Act III Scene I: \<newline>''"
    by blast
  have w3: "(2, FlagRead Print True True) \<in> set xm"
    using waiters_proceed_on_flag [where sched = "[0,0,0,1,1,1,1,1,1,2,2,2]"
        and rock = "''a''" and hamlet = "''b''" and sm = sm and xm = xm and c = "CHR ''H''"
        and ym = "map (Pair 2 \<circ> Stdout) ''amlet Act III Scene I: \<newline>''"] sm
    by blast
  have "map_option (in_wait_loop Print (monitorTest_second_rest ''b'') \<circ> prog_of 2)
      (run [0,0,0,2,2,2,2,2,2,2] (start (monitorTest ''a'' ''b''))) = Some True"
    using w1 run' by (simp add: prog_of_def)
  then show ?thesis using er w2 em w3 unfolding xr_def xm_def by simp
qed

end
